theory Spec2Isabelle
  imports Main "HOL-Library.Sublist"
begin

section \<open>Schema model\<close>

text \<open>
  An attribute is an opaque value compared by equality; an attribute set is a set of
  attributes. A functional dependency is a pair (determinant, dependent), and the
  dependencies of a relation are kept as a list, in the order of their declaration.
\<close>

type_synonym 'a fd = "'a set \<times> 'a set"

text \<open>A Python \<^verbatim>\<open>str\<close> is a sequence of Unicode code points.\<close>

type_synonym pystr = "int list"

definition ascii :: "string \<Rightarrow> pystr" where
  "ascii s = map of_char s"

section \<open>Closure engine\<close>

text \<open>
  One scan of the \<^verbatim>\<open>for lhs, rhs in fds\<close> loop of \<^verbatim>\<open>attribute_closure\<close>. The state
  is the pair of the local variables \<^verbatim>\<open>closure\<close> and \<^verbatim>\<open>changed\<close>.
\<close>

fun closure_pass :: "'a fd list \<Rightarrow> 'a set \<times> bool \<Rightarrow> 'a set \<times> bool" where
  "closure_pass [] (closure, changed) = (closure, changed)"
| "closure_pass ((lhs, rhs) # fds) (closure, changed) =
     (if lhs \<subseteq> closure then
        (if \<not> rhs \<subseteq> closure then closure_pass fds (closure \<union> rhs, True)
         else closure_pass fds (closure, changed))
      else closure_pass fds (closure, changed))"

text \<open>
  The number of dependencies whose dependent is not yet inside the closure. Every scan
  that reports a change makes it smaller, which bounds the \<^verbatim>\<open>while changed\<close> loop.
\<close>

definition pending :: "'a fd list \<Rightarrow> 'a set \<Rightarrow> nat" where
  "pending fds closure = length (filter (\<lambda>fd. \<not> snd fd \<subseteq> closure) fds)"

lemma closure_pass_grows:
  "fst st \<subseteq> fst (closure_pass fds st)"
proof (induction fds st rule: closure_pass.induct)
  case (1 closure changed)
  show ?case by simp
next
  case (2 lhs rhs fds closure changed)
  then show ?case by (auto split: if_splits)
qed

lemma closure_pass_changed_witness:
  "snd (closure_pass fds (c, ch)) \<Longrightarrow> \<not> ch \<Longrightarrow>
   \<exists>fd \<in> set fds. \<not> snd fd \<subseteq> c \<and> snd fd \<subseteq> fst (closure_pass fds (c, ch))"
proof (induction fds "(c, ch)" arbitrary: c ch rule: closure_pass.induct)
  case (1 closure changed)
  then show ?case by simp
next
  case (2 lhs rhs fds closure changed)
  show ?case
  proof (cases "lhs \<subseteq> closure \<and> \<not> rhs \<subseteq> closure")
    case True
    have "closure \<union> rhs \<subseteq> fst (closure_pass fds (closure \<union> rhs, True))"
      using closure_pass_grows [of "(closure \<union> rhs, True)" fds] by simp
    with True show ?thesis by auto
  next
    case False
    then have eq: "closure_pass ((lhs, rhs) # fds) (closure, changed)
        = closure_pass fds (closure, changed)"
      by auto
    from False "2.prems" eq "2.hyps"(2,3) [of ]
    have "\<exists>fd \<in> set fds. \<not> snd fd \<subseteq> closure
        \<and> snd fd \<subseteq> fst (closure_pass fds (closure, changed))"
      by (cases "lhs \<subseteq> closure") auto
    with eq show ?thesis by auto
  qed
qed

lemma pending_decreases:
  assumes "snd (closure_pass fds (c, False))"
  shows "pending fds (fst (closure_pass fds (c, False))) < pending fds c"
proof -
  let ?c' = "fst (closure_pass fds (c, False))"
  let ?P = "\<lambda>fd. \<not> snd fd \<subseteq> c"
  let ?Q = "\<lambda>fd. \<not> snd fd \<subseteq> ?c'"
  have sub: "c \<subseteq> ?c'"
    using closure_pass_grows [of "(c, False)" fds] by simp
  obtain fd where fd: "fd \<in> set fds" "\<not> snd fd \<subseteq> c" "snd fd \<subseteq> ?c'"
    using closure_pass_changed_witness [OF assms] by auto
  have "filter ?Q fds = filter ?Q (filter ?P fds)"
    using sub by (auto intro!: filter_cong)
  moreover have "length (filter ?Q (filter ?P fds)) < length (filter ?P fds)"
    using fd by (intro length_filter_less [of fd]) auto
  ultimately show ?thesis by (simp add: pending_def)
qed

text \<open>
  The \<^verbatim>\<open>while changed\<close> loop: each round resets \<^verbatim>\<open>changed\<close>, scans the
  dependencies once, and stops after the first scan that changes nothing.
\<close>

function closure_loop :: "'a fd list \<Rightarrow> 'a set \<Rightarrow> 'a set" where
  "closure_loop fds closure =
     (let st = closure_pass fds (closure, False)
      in if snd st then closure_loop fds (fst st) else fst st)"
  by pat_completeness auto
termination
  by (relation "measure (\<lambda>(fds, closure). pending fds closure)")
     (auto simp: pending_decreases)

declare closure_loop.simps [simp del]

definition attribute_closure :: "'a set \<Rightarrow> 'a fd list \<Rightarrow> 'a set" where
  "attribute_closure attributes fds = closure_loop fds attributes"


section \<open>Closure engine: the fixed point\<close>

text \<open>A set is closed under a dependency list when every dependency whose determinant
  lies in the set has its dependent in the set too.\<close>

definition closed_under :: "'a fd list \<Rightarrow> 'a set \<Rightarrow> bool" where
  "closed_under fds D = list_all (\<lambda>fd. fst fd \<subseteq> D \<longrightarrow> snd fd \<subseteq> D) fds"

lemma closed_under_Cons:
  "closed_under ((lhs, rhs) # fds) D \<longleftrightarrow> (lhs \<subseteq> D \<longrightarrow> rhs \<subseteq> D) \<and> closed_under fds D"
  by (simp add: closed_under_def)

lemma closed_under_Nil: "closed_under [] D"
  by (simp add: closed_under_def)

lemma closed_underD:
  "closed_under fds D \<Longrightarrow> (lhs, rhs) \<in> set fds \<Longrightarrow> lhs \<subseteq> D \<Longrightarrow> rhs \<subseteq> D"
proof (induction fds)
  case Nil
  then show ?case by simp
next
  case (Cons fd fds)
  obtain l r where fd: "fd = (l, r)" by (cases fd)
  from Cons.prems(1) have hd: "l \<subseteq> D \<longrightarrow> r \<subseteq> D" and tl: "closed_under fds D"
    unfolding fd closed_under_Cons by simp_all
  show ?case
  proof (cases "(lhs, rhs) = fd")
    case True
    with hd fd Cons.prems(3) show ?thesis by simp
  next
    case False
    with Cons.prems(2) have "(lhs, rhs) \<in> set fds" by simp
    from Cons.IH [OF tl this Cons.prems(3)] show ?thesis .
  qed
qed

lemma closed_underI:
  "(\<And>lhs rhs. (lhs, rhs) \<in> set fds \<Longrightarrow> lhs \<subseteq> D \<Longrightarrow> rhs \<subseteq> D) \<Longrightarrow> closed_under fds D"
proof (induction fds)
  case Nil
  show ?case by (rule closed_under_Nil)
next
  case (Cons fd fds)
  obtain lhs rhs where fd: "fd = (lhs, rhs)" by (cases fd)
  have "closed_under fds D"
    by (rule Cons.IH) (rule Cons.prems, simp_all)
  moreover have "lhs \<subseteq> D \<longrightarrow> rhs \<subseteq> D"
    using Cons.prems [of lhs rhs] fd by simp
  ultimately show ?case
    unfolding fd closed_under_Cons by simp
qed

lemma closure_pass_below:
  "closed_under fds D \<Longrightarrow> fst st \<subseteq> D \<Longrightarrow> fst (closure_pass fds st) \<subseteq> D"
proof (induction fds st rule: closure_pass.induct)
  case (1 closure changed)
  then show ?case by simp
next
  case (2 lhs rhs fds closure changed)
  from "2.prems"(1) have tl: "closed_under fds D" and hd: "lhs \<subseteq> D \<longrightarrow> rhs \<subseteq> D"
    unfolding closed_under_Cons by simp_all
  from "2.prems"(2) have cD: "closure \<subseteq> D" by simp
  show ?case
  proof (cases "lhs \<subseteq> closure")
    case True
    with hd cD have rD: "rhs \<subseteq> D" by blast
    show ?thesis
    proof (cases "rhs \<subseteq> closure")
      case True
      with \<open>lhs \<subseteq> closure\<close> "2.IH"(2) tl cD show ?thesis by simp
    next
      case False
      from rD cD have "fst (closure \<union> rhs, True) \<subseteq> D" by simp
      from "2.IH"(1) [OF \<open>lhs \<subseteq> closure\<close> False tl this] False \<open>lhs \<subseteq> closure\<close>
      show ?thesis by simp
    qed
  next
    case False
    with "2.IH"(3) tl cD show ?thesis by simp
  qed
qed

lemma closure_pass_unchanged:
  "\<not> snd (closure_pass fds (c, ch)) \<Longrightarrow>
   closure_pass fds (c, ch) = (c, ch) \<and> closed_under fds c"
proof (induction fds "(c, ch)" arbitrary: c ch rule: closure_pass.induct)
  case (1 closure changed)
  then show ?case by (simp add: closed_under_Nil)
next
  case (2 lhs rhs fds closure changed)
  show ?case
  proof (cases "lhs \<subseteq> closure \<and> \<not> rhs \<subseteq> closure")
    case True
    with "2.prems" have nch: "\<not> snd (closure_pass fds (closure \<union> rhs, True))"
      by simp
    from True have t1: "lhs \<subseteq> closure" and t2: "\<not> rhs \<subseteq> closure" by simp_all
    from "2.hyps"(1) [OF t1 t2 nch] nch have False by simp
    then show ?thesis ..
  next
    case False
    then have eq: "closure_pass ((lhs, rhs) # fds) (closure, changed)
        = closure_pass fds (closure, changed)"
      by simp
    with "2.prems" have nch: "\<not> snd (closure_pass fds (closure, changed))"
      by simp
    have ih: "closure_pass fds (closure, changed) = (closure, changed) \<and> closed_under fds closure"
    proof (cases "lhs \<subseteq> closure")
      case True
      with False have "\<not> \<not> rhs \<subseteq> closure" by simp
      from "2.hyps"(2) [OF True this nch] show ?thesis .
    next
      case False
      from "2.hyps"(3) [OF False nch] show ?thesis .
    qed
    from False have "lhs \<subseteq> closure \<longrightarrow> rhs \<subseteq> closure" by simp
    with ih eq show ?thesis
      unfolding closed_under_Cons by simp
  qed
qed

lemma closure_loop_unfold_changed:
  "snd (closure_pass fds (c, False)) \<Longrightarrow>
   closure_loop fds c = closure_loop fds (fst (closure_pass fds (c, False)))"
  by (subst closure_loop.simps) (simp add: Let_def)

lemma closure_loop_unfold_stable:
  "\<not> snd (closure_pass fds (c, False)) \<Longrightarrow> closure_loop fds c = c"
  using closure_pass_unchanged [of fds c False]
  by (subst closure_loop.simps) (simp add: Let_def)

lemma closure_loop_extensive: "c \<subseteq> closure_loop fds c"
proof (induction fds c rule: closure_loop.induct)
  case (1 fds closure)
  show ?case
  proof (cases "snd (closure_pass fds (closure, False))")
    case True
    have "closure \<subseteq> fst (closure_pass fds (closure, False))"
      using closure_pass_grows [of "(closure, False)" fds] by simp
    also have "\<dots> \<subseteq> closure_loop fds (fst (closure_pass fds (closure, False)))"
      using "1.IH" [OF refl True] .
    finally show ?thesis
      by (simp only: closure_loop_unfold_changed [OF True])
  next
    case False
    show ?thesis
      by (simp only: closure_loop_unfold_stable [OF False] order_refl)
  qed
qed

lemma closure_loop_closed: "closed_under fds (closure_loop fds c)"
proof (induction fds c rule: closure_loop.induct)
  case (1 fds closure)
  show ?case
  proof (cases "snd (closure_pass fds (closure, False))")
    case True
    from "1.IH" [OF refl True] show ?thesis
      by (simp only: closure_loop_unfold_changed [OF True])
  next
    case False
    from closure_pass_unchanged [OF False] show ?thesis
      by (simp only: closure_loop_unfold_stable [OF False])
  qed
qed

lemma closure_loop_least:
  "closed_under fds D \<Longrightarrow> c \<subseteq> D \<Longrightarrow> closure_loop fds c \<subseteq> D"
proof (induction fds c rule: closure_loop.induct)
  case (1 fds closure)
  show ?case
  proof (cases "snd (closure_pass fds (closure, False))")
    case True
    have b: "fst (closure_pass fds (closure, False)) \<subseteq> D"
      using closure_pass_below [OF "1.prems"(1), of "(closure, False)"] "1.prems"(2) by simp
    from "1.IH" [OF refl True "1.prems"(1) b] show ?thesis
      by (simp only: closure_loop_unfold_changed [OF True])
  next
    case False
    from "1.prems"(2) show ?thesis
      by (simp only: closure_loop_unfold_stable [OF False])
  qed
qed

lemma closure_extensive: "X \<subseteq> attribute_closure X fds"
  by (simp add: attribute_closure_def closure_loop_extensive)

lemma closure_closed: "closed_under fds (attribute_closure X fds)"
  by (simp add: attribute_closure_def closure_loop_closed)

lemma closure_least:
  "closed_under fds D \<Longrightarrow> X \<subseteq> D \<Longrightarrow> attribute_closure X fds \<subseteq> D"
  by (simp add: attribute_closure_def closure_loop_least)

lemma closure_mono:
  "X \<subseteq> Y \<Longrightarrow> attribute_closure X fds \<subseteq> attribute_closure Y fds"
  by (rule closure_least [OF closure_closed]) (rule order_trans [OF _ closure_extensive])

lemma closure_fixed:
  "closed_under fds X \<Longrightarrow> attribute_closure X fds = X"
  by (simp add: closure_extensive closure_least subset_antisym)

lemma closure_idem:
  "attribute_closure (attribute_closure X fds) fds = attribute_closure X fds"
  by (rule closure_fixed) (rule closure_closed)

text \<open>The dependencies that mention no attribute outside a universe \<open>U\<close>: both sides lie
  inside \<open>U\<close>. This is the relevance filter that \<^verbatim>\<open>determine_normal_form\<close> applies inline.\<close>

definition fds_within :: "'a set \<Rightarrow> 'a fd list \<Rightarrow> 'a fd list" where
  "fds_within U fds = filter (\<lambda>fd. fst fd \<subseteq> U \<and> snd fd \<subseteq> U) fds"

lemma closed_under_fds_within: "closed_under (fds_within U fds) U"
  by (rule closed_underI) (simp add: fds_within_def)

lemma closure_fds_within_eq:
  assumes "X \<subseteq> U" and "closed_under fds U"
  shows "attribute_closure X (fds_within U fds) = attribute_closure X fds"
proof (rule subset_antisym)
  have "closed_under (fds_within U fds) (attribute_closure X fds)"
  proof (rule closed_underI)
    fix lhs rhs
    assume "(lhs, rhs) \<in> set (fds_within U fds)" and l: "lhs \<subseteq> attribute_closure X fds"
    then have "(lhs, rhs) \<in> set fds" by (simp add: fds_within_def)
    from closed_underD [OF closure_closed this l] show "rhs \<subseteq> attribute_closure X fds" .
  qed
  then show "attribute_closure X (fds_within U fds) \<subseteq> attribute_closure X fds"
    by (rule closure_least) (rule closure_extensive)
next
  let ?C = "attribute_closure X (fds_within U fds)"
  have inU: "?C \<subseteq> U"
    by (rule closure_least [OF closed_under_fds_within assms(1)])
  have "closed_under fds ?C"
  proof (rule closed_underI)
    fix lhs rhs
    assume m: "(lhs, rhs) \<in> set fds" and l: "lhs \<subseteq> ?C"
    from l inU have lU: "lhs \<subseteq> U" by (rule order_trans)
    from closed_underD [OF assms(2) m lU] have "rhs \<subseteq> U" .
    with m lU have "(lhs, rhs) \<in> set (fds_within U fds)" by (simp add: fds_within_def)
    from closed_underD [OF closure_closed this l] show "rhs \<subseteq> ?C" .
  qed
  then show "attribute_closure X fds \<subseteq> ?C"
    by (rule closure_least) (rule closure_extensive)
qed

section \<open>Properties of the closure engine\<close>

text \<open>
  C7. \<^verbatim>\<open>attribute_closure\<close> is monotonic: whenever \<open>X \<subseteq> Y\<close>, the closure of \<open>X\<close> is
  contained in the closure of \<open>Y\<close> under the same dependency list; and it is extensive:
  every set is contained in its own closure.
\<close>

theorem attribute_closure_monotonic_extensive:
  "(X \<subseteq> Y \<longrightarrow> attribute_closure X fds \<subseteq> attribute_closure Y fds)
   \<and> X \<subseteq> attribute_closure X fds"
  using closure_mono [of X Y fds] closure_extensive [of X fds] by simp

theorem attribute_closure_monotonic_extensive_witness:
  "{''A''} \<subseteq> {''A'', ''C''}
   \<and> attribute_closure {''A''} [({''A''}, {''B''}), ({''B'', ''C''}, {''D''})]
       \<subseteq> attribute_closure {''A'', ''C''} [({''A''}, {''B''}), ({''B'', ''C''}, {''D''})]
   \<and> attribute_closure {''A''} [({''A''}, {''B''}), ({''B'', ''C''}, {''D''})] = {''A'', ''B''}
   \<and> attribute_closure {''A'', ''C''} [({''A''}, {''B''}), ({''B'', ''C''}, {''D''})]
       = {''A'', ''B'', ''C'', ''D''}"
proof -
  have h: "{''A''} \<subseteq> {''A'', ''C''}" by simp
  have v1: "attribute_closure {''A''} [({''A''}, {''B''}), ({''B'', ''C''}, {''D''})]
      = {''A'', ''B''}"
    by code_simp
  have v2: "attribute_closure {''A'', ''C''} [({''A''}, {''B''}), ({''B'', ''C''}, {''D''})]
      = {''A'', ''B'', ''C'', ''D''}"
    by code_simp
  from attribute_closure_monotonic_extensive
    [of "{''A''}" "{''A'', ''C''}" "[({''A''}, {''B''}), ({''B'', ''C''}, {''D''})]"] h
  have "attribute_closure {''A''} [({''A''}, {''B''}), ({''B'', ''C''}, {''D''})]
       \<subseteq> attribute_closure {''A'', ''C''} [({''A''}, {''B''}), ({''B'', ''C''}, {''D''})]"
    by blast
  with h v1 v2 show ?thesis by blast
qed

text \<open>
  C8. \<^verbatim>\<open>attribute_closure\<close> is idempotent: closing a closure again under the same
  dependency list returns it unchanged.
\<close>

theorem attribute_closure_idempotent:
  "attribute_closure (attribute_closure X fds) fds = attribute_closure X fds"
  by (rule closure_idem)

theorem attribute_closure_idempotent_witness:
  "attribute_closure (attribute_closure {''A''} [({''A''}, {''B''}), ({''B''}, {''C''})])
      [({''A''}, {''B''}), ({''B''}, {''C''})] = {''A'', ''B'', ''C''}"
proof -
  have "attribute_closure {''A''} [({''A''}, {''B''}), ({''B''}, {''C''})] = {''A'', ''B'', ''C''}"
    by code_simp
  with attribute_closure_idempotent [of "{''A''}" "[({''A''}, {''B''}), ({''B''}, {''C''})]"]
  show ?thesis by simp
qed

text \<open>
  C6, as the specification states it: for every \<open>X\<close> inside the universe, dropping the
  dependencies that mention an attribute outside the universe does not change the
  closure, and the closure never leaves the universe. The code applies every dependency
  as written, so this fails: with universe \<open>{A}\<close> and the dependency \<open>A \<rightarrow> B\<close>, the closure
  of \<open>{A}\<close> is \<open>{A, B}\<close>.
\<close>

theorem attribute_closure_outside_universe_counterexample:
  "{''A''} \<subseteq> {''A''}
   \<and> attribute_closure {''A''} [({''A''}, {''B''})]
       \<noteq> attribute_closure {''A''} (fds_within {''A''} [({''A''}, {''B''})])
   \<and> \<not> attribute_closure {''A''} [({''A''}, {''B''})] \<subseteq> {''A''}"
  by code_simp

text \<open>
  C6, amended: \<^verbatim>\<open>attribute_closure\<close> applies every dependency as written. When no
  dependency with its determinant inside the universe \<open>U\<close> has a dependent reaching outside
  \<open>U\<close> (the universe is closed under the list), then for every \<open>X \<subseteq> U\<close> the dependencies
  mentioning an attribute outside \<open>U\<close> are inert: dropping them does not change the
  closure of \<open>X\<close>, and that closure stays inside \<open>U\<close>.
\<close>

theorem attribute_closure_outside_universe_inert:
  assumes "X \<subseteq> U" and "closed_under fds U"
  shows "attribute_closure X (fds_within U fds) = attribute_closure X fds
         \<and> attribute_closure X fds \<subseteq> U"
  using closure_fds_within_eq [OF assms] closure_least [OF assms(2,1)] by simp

theorem attribute_closure_outside_universe_inert_witness:
  "{''A''} \<subseteq> {''A'', ''B''}
   \<and> closed_under [({''A''}, {''B''}), ({''Z''}, {''A''}), ({''Z'', ''B''}, {''Y''})] {''A'', ''B''}
   \<and> fds_within {''A'', ''B''} [({''A''}, {''B''}), ({''Z''}, {''A''}), ({''Z'', ''B''}, {''Y''})]
       = [({''A''}, {''B''})]
   \<and> attribute_closure {''A''} [({''A''}, {''B''})]
       = attribute_closure {''A''} [({''A''}, {''B''}), ({''Z''}, {''A''}), ({''Z'', ''B''}, {''Y''})]
   \<and> attribute_closure {''A''} [({''A''}, {''B''}), ({''Z''}, {''A''}), ({''Z'', ''B''}, {''Y''})]
       \<subseteq> {''A'', ''B''}"
proof -
  let ?fds = "[({''A''}, {''B''}), ({''Z''}, {''A''}), ({''Z'', ''B''}, {''Y''})]"
  have h1: "{''A''} \<subseteq> {''A'', ''B''}" by simp
  have h2: "closed_under ?fds {''A'', ''B''}" by code_simp
  have f: "fds_within {''A'', ''B''} ?fds = [({''A''}, {''B''})]" by code_simp
  from attribute_closure_outside_universe_inert [OF h1 h2] h1 h2 f
  show ?thesis by simp
qed

section \<open>Key finder\<close>

text \<open>
  \<^verbatim>\<open>itertools.combinations(xs, r)\<close>: the sub-sequences of \<open>xs\<close> of length \<open>r\<close>, in the
  lexicographic order of their positions.
\<close>

fun combinations :: "'a list \<Rightarrow> nat \<Rightarrow> 'a list list" where
  "combinations xs 0 = [[]]"
| "combinations [] (Suc r) = []"
| "combinations (x # xs) (Suc r) =
     map ((#) x) (combinations xs r) @ combinations xs (Suc r)"

text \<open>The first loop of \<^verbatim>\<open>find_candidate_keys\<close>: the union of all dependents.\<close>

definition rhs_union :: "'a fd list \<Rightarrow> 'a set" where
  "rhs_union fds = fold (\<lambda>fd acc. acc \<union> snd fd) fds {}"

text \<open>The inner function \<^verbatim>\<open>is_superkey_of_existing\<close>, with the list of keys accepted so
  far (a captured variable in the source) as an explicit argument.\<close>

fun is_superkey_of_existing :: "'a set list \<Rightarrow> 'a set \<Rightarrow> bool" where
  "is_superkey_of_existing [] candidate = False"
| "is_superkey_of_existing (key # keys) candidate =
     (if key \<subseteq> candidate then True else is_superkey_of_existing keys candidate)"

text \<open>The body of the inner \<^verbatim>\<open>for combination in ...\<close> loop, as a function from the list
  \<^verbatim>\<open>candidate_keys\<close> before the iteration to the list after it.\<close>

definition try_combination ::
  "'a set \<Rightarrow> 'a set \<Rightarrow> 'a fd list \<Rightarrow> 'a list \<Rightarrow> 'a set list \<Rightarrow> 'a set list" where
  "try_combination essential_attrs all_attrs fds combination candidate_keys =
     (let candidate = essential_attrs \<union> set combination
      in if is_superkey_of_existing candidate_keys candidate then candidate_keys
         else if attribute_closure candidate fds = all_attrs
              then candidate_keys @ [candidate]
              else candidate_keys)"

text \<open>The two nested loops: sizes \<open>0, \<dots>, len(remaining_attrs)\<close>, and for each size the
  combinations of that size.\<close>

definition search_keys ::
  "'a set \<Rightarrow> 'a set \<Rightarrow> 'a fd list \<Rightarrow> 'a list \<Rightarrow> 'a set list" where
  "search_keys essential_attrs all_attrs fds remaining_attrs =
     fold (\<lambda>r. fold (try_combination essential_attrs all_attrs fds)
                  (combinations remaining_attrs r))
       [0 ..< length remaining_attrs + 1] []"

text \<open>
  \<^verbatim>\<open>find_candidate_keys\<close>. Python's \<^verbatim>\<open>list(all_attrs - essential_attrs)\<close> lists a set in
  an order the language does not fix; the function \<open>list_of\<close> stands for that order.
\<close>

definition find_candidate_keys ::
  "('a set \<Rightarrow> 'a list) \<Rightarrow> 'a set \<Rightarrow> 'a fd list \<Rightarrow> 'a set list" where
  "find_candidate_keys list_of all_attrs fds =
     (let essential_attrs = all_attrs - rhs_union fds;
          remaining_attrs = list_of (all_attrs - essential_attrs);
          candidate_keys = search_keys essential_attrs all_attrs fds remaining_attrs
      in if candidate_keys = [] then
           (if attribute_closure all_attrs fds = all_attrs
            then candidate_keys @ [all_attrs] else candidate_keys)
         else candidate_keys)"

text \<open>What \<^verbatim>\<open>list(s)\<close> guarantees: each element of the set once, nothing else.\<close>

definition lists_set :: "('a set \<Rightarrow> 'a list) \<Rightarrow> 'a set \<Rightarrow> bool" where
  "lists_set list_of S \<longleftrightarrow> set (list_of S) = S \<and> distinct (list_of S)"

text \<open>A fixed listing, for evaluating the key finder on a concrete input.\<close>

definition listing :: "'a list \<Rightarrow> 'a set \<Rightarrow> 'a list" where
  "listing xs S = xs"


subsection \<open>The enumeration\<close>

lemma combinations_elem:
  "c \<in> set (combinations xs r) \<Longrightarrow>
   length c = r \<and> set c \<subseteq> set xs \<and> (distinct xs \<longrightarrow> distinct c)"
proof (induction xs r arbitrary: c rule: combinations.induct)
  case (1 xs)
  then show ?case by simp
next
  case (2 r)
  then show ?case by simp
next
  case (3 x xs r)
  from "3.prems" consider
    (hd) c' where "c = x # c'" "c' \<in> set (combinations xs r)"
    | (tl) "c \<in> set (combinations xs (Suc r))"
    by auto
  then show ?case
  proof cases
    case hd
    from "3.IH"(1) [OF hd(2)] hd(1) show ?thesis by auto
  next
    case tl
    from "3.IH"(2) [OF tl] show ?thesis by auto
  qed
qed

lemma combinations_length: "c \<in> set (combinations xs r) \<Longrightarrow> length c = r"
  by (simp add: combinations_elem)

lemma filter_in_combinations:
  "filter P xs \<in> set (combinations xs (length (filter P xs)))"
proof (induction xs)
  case Nil
  show ?case by simp
next
  case (Cons x xs)
  show ?case
  proof (cases "P x")
    case True
    with Cons.IH show ?thesis by simp
  next
    case False
    show ?thesis
    proof (cases "length (filter P xs)")
      case 0
      with False show ?thesis by simp
    next
      case (Suc k)
      with False Cons.IH show ?thesis by simp
    qed
  qed
qed

definition candidates :: "'a list \<Rightarrow> nat \<Rightarrow> 'a list list" where
  "candidates xs n = concat (map (combinations xs) [0 ..< n])"

lemma candidates_Suc: "candidates xs (Suc n) = candidates xs n @ combinations xs n"
  by (simp add: candidates_def)

lemma candidates_length:
  "c \<in> set (candidates xs n) \<Longrightarrow> length c < n"
  by (auto simp: candidates_def combinations_length)

lemma candidates_sorted:
  "sorted_wrt (\<lambda>a b. length a \<le> length b) (candidates xs n)"
proof (induction n)
  case 0
  show ?case by (simp add: candidates_def)
next
  case (Suc n)
  have "sorted_wrt (\<lambda>a b. length a \<le> length b) (combinations xs n)"
    by (rule sorted_wrt_mono_rel [of _ "\<lambda>a b. True"])
       (simp_all add: combinations_length)
  with Suc show ?case
    by (auto simp: candidates_Suc sorted_wrt_append combinations_length
             dest!: candidates_length)
qed

lemma fold_fold_concat:
  "fold (\<lambda>x. fold f (g x)) xs s = fold f (concat (map g xs)) s"
  by (induction xs arbitrary: s) simp_all

lemma search_keys_candidates:
  "search_keys E A fds rem =
   fold (try_combination E A fds) (candidates rem (Suc (length rem))) []"
  by (simp only: search_keys_def candidates_def fold_fold_concat Suc_eq_plus1)


subsection \<open>The search\<close>

lemma is_superkey_of_existing_iff:
  "is_superkey_of_existing keys candidate \<longleftrightarrow> (\<exists>key \<in> set keys. key \<subseteq> candidate)"
  by (induction keys) auto

lemma try_combination_cases:
  obtains (skip) "try_combination E A fds c ks = ks"
  | (accept) "try_combination E A fds c ks = ks @ [E \<union> set c]"
      "attribute_closure (E \<union> set c) fds = A"
      "\<forall>K \<in> set ks. \<not> K \<subseteq> E \<union> set c"
proof (cases "is_superkey_of_existing ks (E \<union> set c)")
  case True
  then have "try_combination E A fds c ks = ks"
    by (simp add: try_combination_def)
  then show ?thesis by (rule skip)
next
  case no: False
  show ?thesis
  proof (cases "attribute_closure (E \<union> set c) fds = A")
    case True
    with no have "try_combination E A fds c ks = ks @ [E \<union> set c]"
      by (simp add: try_combination_def)
    moreover from no have "\<forall>K \<in> set ks. \<not> K \<subseteq> E \<union> set c"
      by (simp add: is_superkey_of_existing_iff)
    ultimately show ?thesis using True by (intro accept)
  next
    case False
    with no have "try_combination E A fds c ks = ks"
      by (simp add: try_combination_def)
    then show ?thesis by (rule skip)
  qed
qed

lemma try_combination_mono: "set ks \<subseteq> set (try_combination E A fds c ks)"
proof (cases rule: try_combination_cases [of E A fds c ks])
  case skip
  then show ?thesis by simp
next
  case accept
  from accept(1) show ?thesis by auto
qed

lemma try_combination_covers:
  assumes "attribute_closure (E \<union> set c) fds = A"
  shows "\<exists>K \<in> set (try_combination E A fds c ks). K \<subseteq> E \<union> set c"
proof (cases "is_superkey_of_existing ks (E \<union> set c)")
  case True
  then obtain K where "K \<in> set ks" "K \<subseteq> E \<union> set c"
    unfolding is_superkey_of_existing_iff by blast
  with try_combination_mono [of ks E A fds c] show ?thesis by blast
next
  case False
  with assms have "try_combination E A fds c ks = ks @ [E \<union> set c]"
    by (simp add: try_combination_def)
  then show ?thesis by simp
qed

lemma search_mono:
  "set ks \<subseteq> set (fold (try_combination E A fds) cs ks)"
proof (induction cs arbitrary: ks)
  case Nil
  show ?case by simp
next
  case (Cons c cs)
  note try_combination_mono [of ks E A fds c]
  also have "set (try_combination E A fds c ks)
      \<subseteq> set (fold (try_combination E A fds) (c # cs) ks)"
    using Cons.IH by simp
  finally show ?case .
qed

lemma search_origin:
  "K \<in> set (fold (try_combination E A fds) cs ks) \<Longrightarrow>
   K \<in> set ks \<or> (\<exists>c \<in> set cs. K = E \<union> set c \<and> attribute_closure K fds = A)"
proof (induction cs arbitrary: ks)
  case Nil
  then show ?case by simp
next
  case (Cons c cs)
  from Cons.prems have "K \<in> set (fold (try_combination E A fds) cs (try_combination E A fds c ks))"
    by simp
  from Cons.IH [OF this] consider
    (old) "K \<in> set (try_combination E A fds c ks)"
    | (later) "\<exists>c \<in> set cs. K = E \<union> set c \<and> attribute_closure K fds = A"
    by blast
  then show ?case
  proof cases
    case old
    show ?thesis
    proof (cases rule: try_combination_cases [of E A fds c ks])
      case skip
      with old show ?thesis by simp
    next
      case accept
      with old have "K \<in> set ks \<or> K = E \<union> set c" by auto
      with accept(2) show ?thesis by auto
    qed
  next
    case later
    then show ?thesis by auto
  qed
qed

lemma search_covers:
  "c \<in> set cs \<Longrightarrow> attribute_closure (E \<union> set c) fds = A \<Longrightarrow>
   \<exists>K \<in> set (fold (try_combination E A fds) cs ks). K \<subseteq> E \<union> set c"
proof (induction cs arbitrary: ks)
  case Nil
  then show ?case by simp
next
  case (Cons d cs)
  show ?case
  proof (cases "c = d")
    case True
    from try_combination_covers [OF Cons.prems(2), of ks]
    obtain K where K: "K \<in> set (try_combination E A fds c ks)" "K \<subseteq> E \<union> set c"
      by blast
    from K(1) search_mono [of "try_combination E A fds c ks" E A fds cs]
    have "K \<in> set (fold (try_combination E A fds) (d # cs) ks)"
      using True by auto
    with K(2) show ?thesis by blast
  next
    case False
    with Cons.prems(1) have "c \<in> set cs" by simp
    from Cons.IH [OF this Cons.prems(2)] show ?thesis by simp
  qed
qed

text \<open>The keys accepted so far form an antichain, each of them the essential attributes
  plus at most as many further attributes as any combination still to come.\<close>

definition antichain :: "'a set list \<Rightarrow> bool" where
  "antichain ks \<longleftrightarrow> distinct ks \<and> (\<forall>K \<in> set ks. \<forall>K' \<in> set ks. K \<subseteq> K' \<longrightarrow> K = K')"

definition small_keys :: "'a set \<Rightarrow> 'a set list \<Rightarrow> 'a list list \<Rightarrow> bool" where
  "small_keys E ks cs \<longleftrightarrow>
     (\<forall>K \<in> set ks. E \<subseteq> K \<and> finite (K - E) \<and> (\<forall>c \<in> set cs. card (K - E) \<le> length c))"

lemma search_antichain:
  assumes "sorted_wrt (\<lambda>a b. length a \<le> length b) cs"
    and "\<forall>c \<in> set cs. distinct c \<and> set c \<inter> E = {}"
    and "antichain ks" and "small_keys E ks cs"
  shows "antichain (fold (try_combination E A fds) cs ks)"
  using assms
proof (induction cs arbitrary: ks)
  case Nil
  then show ?case by simp
next
  case (Cons c cs)
  let ?ks' = "try_combination E A fds c ks"
  from Cons.prems(1) have sorted: "sorted_wrt (\<lambda>a b. length a \<le> length b) cs"
    and le: "\<forall>d \<in> set cs. length c \<le> length d" by simp_all
  from Cons.prems(2) have disj: "\<forall>c \<in> set cs. distinct c \<and> set c \<inter> E = {}"
    and c: "distinct c" "set c \<inter> E = {}" by simp_all
  have "antichain ?ks' \<and> small_keys E ?ks' cs"
  proof (cases "?ks' = ks")
    case True
    with Cons.prems(3,4) show ?thesis by (simp add: small_keys_def)
  next
    case False
    then have eq: "?ks' = ks @ [E \<union> set c]" and new: "\<forall>K \<in> set ks. \<not> K \<subseteq> E \<union> set c"
      by (cases rule: try_combination_cases [of E A fds c ks]; simp)+
    have diff: "(E \<union> set c) - E = set c" using c(2) by blast
    have above: "\<not> E \<union> set c \<subseteq> K" if K: "K \<in> set ks" for K
    proof
      assume sub: "E \<union> set c \<subseteq> K"
      from Cons.prems(4) K have EK: "E \<subseteq> K" and fin: "finite (K - E)"
        and cardK: "card (K - E) \<le> length c"
        by (simp_all add: small_keys_def)
      from sub c(2) have "set c \<subseteq> K - E" by blast
      moreover from cardK c(1) have "card (K - E) \<le> card (set c)"
        by (simp add: distinct_card)
      ultimately have "set c = K - E" using fin by (rule card_seteq [rotated])
      with EK have "K = E \<union> set c" by blast
      with new K show False by blast
    qed
    have "antichain (ks @ [E \<union> set c])"
      using Cons.prems(3) new above unfolding antichain_def by auto
    moreover have "small_keys E (ks @ [E \<union> set c]) cs"
      using Cons.prems(4) le c(1) unfolding small_keys_def
      by (auto simp: diff distinct_card)
    ultimately show ?thesis by (simp add: eq)
  qed
  then have "antichain (fold (try_combination E A fds) cs ?ks')"
    using Cons.IH [OF sorted disj] by blast
  then show ?case by simp
qed


subsection \<open>Essential attributes\<close>

lemma fold_rhs_union:
  "fold (\<lambda>fd acc. acc \<union> snd fd) fds S = S \<union> \<Union> (snd ` set fds)"
  by (induction fds arbitrary: S) auto

lemma rhs_union_eq: "rhs_union fds = \<Union> (snd ` set fds)"
  by (simp add: rhs_union_def fold_rhs_union)

lemma closure_within_rhs_union:
  "attribute_closure S fds \<subseteq> S \<union> rhs_union fds"
proof (rule closure_least)
  show "closed_under fds (S \<union> rhs_union fds)"
  proof (rule closed_underI)
    fix lhs rhs
    assume "(lhs, rhs) \<in> set fds"
    then have "rhs \<subseteq> rhs_union fds"
      unfolding rhs_union_eq by force
    then show "rhs \<subseteq> S \<union> rhs_union fds" by blast
  qed
qed simp

lemma superkey_shape:
  assumes "attribute_closure S fds = A"
  shows "S \<subseteq> A" and "A - rhs_union fds \<subseteq> S"
proof -
  show "S \<subseteq> A" using closure_extensive [of S fds] assms by simp
  show "A - rhs_union fds \<subseteq> S"
    using closure_within_rhs_union [of S fds] assms by blast
qed

subsection \<open>The keys found by the search\<close>

lemma candidates_complete:
  "filter P xs \<in> set (candidates xs (Suc (length xs)))"
proof -
  have "length (filter P xs) < Suc (length xs)"
    by (simp add: le_imp_less_Suc)
  then have "length (filter P xs) \<in> set [0 ..< Suc (length xs)]"
    by (simp del: upt_Suc)
  with filter_in_combinations [of P xs] show ?thesis
    unfolding candidates_def set_concat set_map by blast
qed

lemma candidates_elem:
  assumes "c \<in> set (candidates xs n)"
  shows "set c \<subseteq> set xs" and "distinct xs \<Longrightarrow> distinct c"
proof -
  from assms obtain r where "c \<in> set (combinations xs r)"
    unfolding candidates_def by auto
  from combinations_elem [OF this]
  show "set c \<subseteq> set xs" and "distinct xs \<Longrightarrow> distinct c" by simp_all
qed

lemma search_keys_superkey:
  assumes "K \<in> set (search_keys E A fds rem)"
  shows "attribute_closure K fds = A"
  using search_origin [of K E A fds "candidates rem (Suc (length rem))" "[]"] assms
  unfolding search_keys_candidates by auto

lemma search_keys_antichain:
  assumes "distinct rem" and "set rem \<inter> E = {}"
  shows "antichain (search_keys E A fds rem)"
  unfolding search_keys_candidates
proof (rule search_antichain)
  show "sorted_wrt (\<lambda>a b. length a \<le> length b) (candidates rem (Suc (length rem)))"
    by (rule candidates_sorted)
  show "\<forall>c \<in> set (candidates rem (Suc (length rem))). distinct c \<and> set c \<inter> E = {}"
  proof
    fix c assume "c \<in> set (candidates rem (Suc (length rem)))"
    from candidates_elem [OF this] assms show "distinct c \<and> set c \<inter> E = {}" by blast
  qed
  show "antichain []" by (simp add: antichain_def)
  show "small_keys E [] (candidates rem (Suc (length rem)))" by (simp add: small_keys_def)
qed

lemma search_keys_cover:
  assumes rem: "set rem = A - E" and E: "E = A - rhs_union fds"
    and S: "attribute_closure S fds = A"
  shows "\<exists>K \<in> set (search_keys E A fds rem). K \<subseteq> S"
proof -
  let ?c = "filter (\<lambda>x. x \<in> S) rem"
  from superkey_shape [OF S] E have SA: "S \<subseteq> A" and ES: "E \<subseteq> S" by simp_all
  have "set ?c = S \<inter> (A - E)" using rem by auto
  with SA ES have eq: "E \<union> set ?c = S" by blast
  have "?c \<in> set (candidates rem (Suc (length rem)))"
    by (rule candidates_complete)
  moreover have "attribute_closure (E \<union> set ?c) fds = A"
    using S by (simp only: eq)
  ultimately have "\<exists>K \<in> set (fold (try_combination E A fds)
      (candidates rem (Suc (length rem))) []). K \<subseteq> E \<union> set ?c"
    by (rule search_covers)
  then show ?thesis
    by (simp only: eq search_keys_candidates)
qed

lemma search_keys_nonempty_iff:
  assumes rem: "set rem = A - E" and E: "E = A - rhs_union fds"
  shows "search_keys E A fds rem \<noteq> [] \<longleftrightarrow> attribute_closure A fds = A"
proof
  assume "search_keys E A fds rem \<noteq> []"
  then obtain K where "K \<in> set (search_keys E A fds rem)"
    by (cases "search_keys E A fds rem") auto
  then have "attribute_closure K fds = A" by (rule search_keys_superkey)
  with closure_idem [of K fds] show "attribute_closure A fds = A" by simp
next
  assume "attribute_closure A fds = A"
  from search_keys_cover [OF rem E this] show "search_keys E A fds rem \<noteq> []" by auto
qed

lemma find_candidate_keys_search:
  assumes "lists_set list_of (all_attrs - (all_attrs - rhs_union fds))"
  shows "find_candidate_keys list_of all_attrs fds =
    search_keys (all_attrs - rhs_union fds) all_attrs fds
      (list_of (all_attrs - (all_attrs - rhs_union fds)))"
proof -
  let ?E = "all_attrs - rhs_union fds"
  let ?rem = "list_of (all_attrs - ?E)"
  from assms have rem: "set ?rem = all_attrs - ?E" by (simp add: lists_set_def)
  from search_keys_nonempty_iff [OF rem refl]
  have "search_keys ?E all_attrs fds ?rem = [] \<Longrightarrow> attribute_closure all_attrs fds \<noteq> all_attrs"
    by blast
  then show ?thesis
    by (simp add: find_candidate_keys_def Let_def)
qed

lemma find_candidate_keys_empty:
  assumes "attribute_closure all_attrs fds \<noteq> all_attrs"
  shows "find_candidate_keys list_of all_attrs fds = []"
proof -
  let ?E = "all_attrs - rhs_union fds"
  let ?ks = "search_keys ?E all_attrs fds (list_of (all_attrs - ?E))"
  have "?ks = []"
  proof (cases ?ks)
    case Nil
    then show ?thesis .
  next
    case (Cons K ks')
    then have "K \<in> set ?ks" by simp
    then have "attribute_closure K fds = all_attrs" by (rule search_keys_superkey)
    with closure_idem [of K fds] assms show ?thesis by simp
  qed
  with assms show ?thesis
    by (simp add: find_candidate_keys_def Let_def)
qed

section \<open>Properties of the key finder\<close>

text \<open>
  C1. Every key \<open>K\<close> returned by \<^verbatim>\<open>find_candidate_keys(attributes, fds)\<close> is a superkey
  (its closure equals \<open>attributes\<close>) and is minimal (no proper subset of \<open>K\<close> has closure
  \<open>attributes\<close>); and no returned key is a subset of a key at another position of the
  returned list. This holds whatever order \<^verbatim>\<open>list(...)\<close> gives the remaining attributes.
\<close>

theorem find_candidate_keys_minimal_superkeys:
  assumes "lists_set list_of (all_attrs - (all_attrs - rhs_union fds))"
  shows "(\<forall>K \<in> set (find_candidate_keys list_of all_attrs fds).
            attribute_closure K fds = all_attrs
            \<and> (\<forall>S. S \<subset> K \<longrightarrow> attribute_closure S fds \<noteq> all_attrs))
         \<and> (\<forall>i j. i < length (find_candidate_keys list_of all_attrs fds)
               \<and> j < length (find_candidate_keys list_of all_attrs fds) \<and> i \<noteq> j
             \<longrightarrow> \<not> find_candidate_keys list_of all_attrs fds ! i
                    \<subseteq> find_candidate_keys list_of all_attrs fds ! j)"
proof -
  let ?E = "all_attrs - rhs_union fds"
  let ?rem = "list_of (all_attrs - ?E)"
  let ?ks = "search_keys ?E all_attrs fds ?rem"
  have eq: "find_candidate_keys list_of all_attrs fds = ?ks"
    using assms by (rule find_candidate_keys_search)
  from assms have rem: "set ?rem = all_attrs - ?E" and dist: "distinct ?rem"
    by (simp_all add: lists_set_def)
  from rem have "set ?rem \<inter> ?E = {}" by blast
  with dist have anti: "antichain ?ks" by (rule search_keys_antichain)
  have key: "attribute_closure K fds = all_attrs
      \<and> (\<forall>S. S \<subset> K \<longrightarrow> attribute_closure S fds \<noteq> all_attrs)"
    if K: "K \<in> set ?ks" for K
  proof (intro conjI allI impI)
    from K show "attribute_closure K fds = all_attrs" by (rule search_keys_superkey)
  next
    fix S assume S: "S \<subset> K"
    show "attribute_closure S fds \<noteq> all_attrs"
    proof
      assume "attribute_closure S fds = all_attrs"
      from search_keys_cover [OF rem refl this]
      obtain K' where K': "K' \<in> set ?ks" "K' \<subseteq> S" by blast
      with S have "K' \<subseteq> K" "K' \<noteq> K" by blast+
      with anti K K' show False unfolding antichain_def by blast
    qed
  qed
  have pair: "\<not> ?ks ! i \<subseteq> ?ks ! j"
    if "i < length ?ks" "j < length ?ks" "i \<noteq> j" for i j
  proof
    assume sub: "?ks ! i \<subseteq> ?ks ! j"
    from that have "?ks ! i \<in> set ?ks" "?ks ! j \<in> set ?ks" by simp_all
    with anti sub have "?ks ! i = ?ks ! j" unfolding antichain_def by blast
    moreover from anti have "distinct ?ks" by (simp add: antichain_def)
    ultimately show False using that by (simp add: nth_eq_iff_index_eq)
  qed
  from key pair show ?thesis unfolding eq by blast
qed


theorem find_candidate_keys_minimal_superkeys_witness:
  "lists_set (listing [''A'', ''B'', ''C''])
     ({''A'', ''B'', ''C''} - ({''A'', ''B'', ''C''}
        - rhs_union [({''A''}, {''B''}), ({''B''}, {''C''}), ({''C''}, {''A''})]))
   \<and> find_candidate_keys (listing [''A'', ''B'', ''C'']) {''A'', ''B'', ''C''}
        [({''A''}, {''B''}), ({''B''}, {''C''}), ({''C''}, {''A''})] = [{''A''}, {''B''}, {''C''}]
   \<and> attribute_closure {''A''} [({''A''}, {''B''}), ({''B''}, {''C''}), ({''C''}, {''A''})]
        = {''A'', ''B'', ''C''}
   \<and> attribute_closure {} [({''A''}, {''B''}), ({''B''}, {''C''}), ({''C''}, {''A''})]
        \<noteq> {''A'', ''B'', ''C''}
   \<and> \<not> {''A''} \<subseteq> {''B''}"
proof -
  let ?A = "{''A'', ''B'', ''C''}"
  let ?fds = "[({''A''}, {''B''}), ({''B''}, {''C''}), ({''C''}, {''A''})]"
  let ?l = "listing [''A'', ''B'', ''C'']"
  have h: "lists_set ?l (?A - (?A - rhs_union ?fds))"
    by code_simp
  have v: "find_candidate_keys ?l ?A ?fds = [{''A''}, {''B''}, {''C''}]"
    by code_simp
  note t = find_candidate_keys_minimal_superkeys [OF h, unfolded v]
  from t have "attribute_closure {''A''} ?fds = ?A
      \<and> (\<forall>S. S \<subset> {''A''} \<longrightarrow> attribute_closure S ?fds \<noteq> ?A)"
    by simp
  moreover have "{} \<subset> {''A''}" by blast
  ultimately have k: "attribute_closure {''A''} ?fds = ?A" "attribute_closure {} ?fds \<noteq> ?A"
    by blast+
  from t have "\<forall>i j. i < 3 \<and> j < 3 \<and> i \<noteq> j
      \<longrightarrow> \<not> [{''A''}, {''B''}, {''C''}] ! i \<subseteq> [{''A''}, {''B''}, {''C''}] ! j"
    by simp
  then have "(0::nat) < 3 \<and> (1::nat) < 3 \<and> (0::nat) \<noteq> 1
      \<longrightarrow> \<not> [{''A''}, {''B''}, {''C''}] ! 0 \<subseteq> [{''A''}, {''B''}, {''C''}] ! 1"
    by blast
  then have p: "\<not> {''A''} \<subseteq> {''B''}" by simp
  from h v k p show ?thesis by blast
qed

text \<open>
  C5, as the specification states it: the key finder always returns at least one key,
  and returns the full attribute set when the search accepts no candidate. The fallback
  is guarded by the same closure test the search has already applied to the full set, so
  for the relation \<open>{A}\<close> with the dependency \<open>A \<rightarrow> B\<close> the result is the empty list.
\<close>

theorem find_candidate_keys_self_heal_counterexample:
  "lists_set (listing []) ({''A''} - ({''A''} - rhs_union [({''A''}, {''B''})]))
   \<and> search_keys ({''A''} - rhs_union [({''A''}, {''B''})]) {''A''} [({''A''}, {''B''})]
        (listing [] ({''A''} - ({''A''} - rhs_union [({''A''}, {''B''})]))) = []
   \<and> find_candidate_keys (listing []) {''A''} [({''A''}, {''B''})] = []"
  by code_simp

text \<open>
  C5, amended: \<^verbatim>\<open>find_candidate_keys(attributes, fds)\<close> returns at least one key exactly
  when the closure of \<open>attributes\<close> is \<open>attributes\<close> itself. On every input on which the
  combination search accepts no candidate, the closure test of the fallback fails as well
  and the function returns the empty list; it has no error path.
\<close>

theorem find_candidate_keys_nonempty_iff:
  assumes "lists_set list_of (all_attrs - (all_attrs - rhs_union fds))"
  shows "(find_candidate_keys list_of all_attrs fds \<noteq> []
            \<longleftrightarrow> attribute_closure all_attrs fds = all_attrs)
         \<and> (search_keys (all_attrs - rhs_union fds) all_attrs fds
               (list_of (all_attrs - (all_attrs - rhs_union fds))) = []
             \<longrightarrow> find_candidate_keys list_of all_attrs fds = [])"
proof -
  from assms have rem: "set (list_of (all_attrs - (all_attrs - rhs_union fds)))
      = all_attrs - (all_attrs - rhs_union fds)"
    by (simp add: lists_set_def)
  show ?thesis
    unfolding find_candidate_keys_search [OF assms]
    using search_keys_nonempty_iff [OF rem refl] by simp
qed

theorem find_candidate_keys_nonempty_iff_witness:
  "lists_set (listing [''B'']) ({''A'', ''B''} - ({''A'', ''B''} - rhs_union [({''A''}, {''B''})]))
   \<and> attribute_closure {''A'', ''B''} [({''A''}, {''B''})] = {''A'', ''B''}
   \<and> find_candidate_keys (listing [''B'']) {''A'', ''B''} [({''A''}, {''B''})] \<noteq> []
   \<and> find_candidate_keys (listing [''B'']) {''A'', ''B''} [({''A''}, {''B''})] = [{''A''}]
   \<and> lists_set (listing []) ({''A''} - ({''A''} - rhs_union [({''A''}, {''C''})]))
   \<and> search_keys ({''A''} - rhs_union [({''A''}, {''C''})]) {''A''} [({''A''}, {''C''})]
        (listing [] ({''A''} - ({''A''} - rhs_union [({''A''}, {''C''})]))) = []
   \<and> find_candidate_keys (listing []) {''A''} [({''A''}, {''C''})] = []"
proof -
  have h: "lists_set (listing [''B''])
      ({''A'', ''B''} - ({''A'', ''B''} - rhs_union [({''A''}, {''B''})]))"
    by code_simp
  have c: "attribute_closure {''A'', ''B''} [({''A''}, {''B''})] = {''A'', ''B''}"
    by code_simp
  have v: "find_candidate_keys (listing [''B'']) {''A'', ''B''} [({''A''}, {''B''})] = [{''A''}]"
    by code_simp
  have n: "find_candidate_keys (listing [''B'']) {''A'', ''B''} [({''A''}, {''B''})] \<noteq> []"
    by (rule iffD2 [OF conjunct1 [OF find_candidate_keys_nonempty_iff [OF h]] c])
  have h': "lists_set (listing []) ({''A''} - ({''A''} - rhs_union [({''A''}, {''C''})]))"
    by code_simp
  have s: "search_keys ({''A''} - rhs_union [({''A''}, {''C''})]) {''A''} [({''A''}, {''C''})]
        (listing [] ({''A''} - ({''A''} - rhs_union [({''A''}, {''C''})]))) = []"
    by code_simp
  have e: "find_candidate_keys (listing []) {''A''} [({''A''}, {''C''})] = []"
    by (rule mp [OF conjunct2 [OF find_candidate_keys_nonempty_iff [OF h']] s])
  show ?thesis
    by (intro conjI h c n v h' s e)
qed


section \<open>Normal-form classifier\<close>

text \<open>A reported violation: determinant, offending dependents, and the reason text.\<close>

type_synonym 'a violation = "'a set \<times> 'a set \<times> string"

text \<open>The first loop of \<^verbatim>\<open>determine_normal_form\<close>: the union of the candidate keys.\<close>

definition prime_attributes :: "'a set list \<Rightarrow> 'a set" where
  "prime_attributes candidate_keys = fold (\<lambda>key acc. acc \<union> key) candidate_keys {}"

text \<open>The inner loop with \<^verbatim>\<open>break\<close> that sets \<^verbatim>\<open>is_proper_subset_of_key\<close>.\<close>

fun is_proper_subset_of_key :: "'a set \<Rightarrow> 'a set list \<Rightarrow> bool" where
  "is_proper_subset_of_key lhs [] = False"
| "is_proper_subset_of_key lhs (key # keys) =
     (if lhs \<subseteq> key \<and> lhs \<noteq> key then True else is_proper_subset_of_key lhs keys)"

text \<open>
  The body of the loop over the dependencies. The state is the triple of the lists
  \<^verbatim>\<open>violations_2nf\<close>, \<^verbatim>\<open>violations_3nf\<close> and \<^verbatim>\<open>violations_bcnf\<close>.
\<close>

definition check_fd ::
  "'a set \<Rightarrow> 'a fd list \<Rightarrow> 'a set list \<Rightarrow> 'a fd \<Rightarrow>
   'a violation list \<times> 'a violation list \<times> 'a violation list \<Rightarrow>
   'a violation list \<times> 'a violation list \<times> 'a violation list" where
  "check_fd relation_attrs fds candidate_keys fd st =
     (case (fd, st) of ((lhs, rhs), (violations_2nf, violations_3nf, violations_bcnf)) \<Rightarrow>
        if \<not> lhs \<subseteq> relation_attrs \<or> \<not> rhs \<subseteq> relation_attrs then st
        else
          let clean_rhs = rhs - lhs in
          if clean_rhs = {} then st
          else
            let lhs_closure = attribute_closure lhs fds;
                is_superkey = relation_attrs \<subseteq> lhs_closure
            in if \<not> is_superkey then
                 let violations_bcnf' =
                       violations_bcnf @ [(lhs, clean_rhs, ''LHS is not a superkey'')];
                     proper = is_proper_subset_of_key lhs candidate_keys;
                     non_prime_rhs = clean_rhs - prime_attributes candidate_keys;
                     violations_2nf' =
                       (if proper \<and> non_prime_rhs \<noteq> {}
                        then violations_2nf @ [(lhs, non_prime_rhs, ''Partial dependency'')]
                        else violations_2nf);
                     violations_3nf' =
                       (if \<not> proper then
                          (if non_prime_rhs \<noteq> {}
                           then violations_3nf @ [(lhs, non_prime_rhs, ''Transitive dependency'')]
                           else violations_3nf)
                        else violations_3nf)
                 in (violations_2nf', violations_3nf', violations_bcnf')
               else st)"

definition collect_violations ::
  "'a set \<Rightarrow> 'a fd list \<Rightarrow> 'a set list \<Rightarrow>
   'a violation list \<times> 'a violation list \<times> 'a violation list" where
  "collect_violations relation_attrs fds candidate_keys =
     fold (check_fd relation_attrs fds candidate_keys) fds ([], [], [])"

definition determine_normal_form ::
  "'a set \<Rightarrow> 'a fd list \<Rightarrow> 'a set list \<Rightarrow> string \<times> string \<times> 'a violation list" where
  "determine_normal_form relation_attrs fds candidate_keys =
     (case collect_violations relation_attrs fds candidate_keys of
        (violations_2nf, violations_3nf, violations_bcnf) \<Rightarrow>
          if violations_2nf \<noteq> [] then
            (''1NF'', ''Violates 2NF (Partial Dependencies detected).'', violations_2nf)
          else if violations_3nf \<noteq> [] then
            (''2NF'', ''Violates 3NF (Transitive Dependencies detected).'', violations_3nf)
          else if violations_bcnf \<noteq> [] then
            (''3NF'', ''Violates BCNF (Dependencies where LHS is not a superkey detected).'',
             violations_bcnf)
          else (''BCNF'', ''Satisfies BCNF (All determinants are superkeys).'', []))"

definition violations_2nf :: "'a set \<Rightarrow> 'a fd list \<Rightarrow> 'a set list \<Rightarrow> 'a violation list" where
  "violations_2nf relation_attrs fds candidate_keys =
     fst (collect_violations relation_attrs fds candidate_keys)"

definition violations_3nf :: "'a set \<Rightarrow> 'a fd list \<Rightarrow> 'a set list \<Rightarrow> 'a violation list" where
  "violations_3nf relation_attrs fds candidate_keys =
     fst (snd (collect_violations relation_attrs fds candidate_keys))"

definition violations_bcnf :: "'a set \<Rightarrow> 'a fd list \<Rightarrow> 'a set list \<Rightarrow> 'a violation list" where
  "violations_bcnf relation_attrs fds candidate_keys =
     snd (snd (collect_violations relation_attrs fds candidate_keys))"

text \<open>A partial dependency in the sense of the classifier: a relevant, non-trivial
  dependency whose determinant is not a superkey of the relation, is a proper subset of a
  candidate key, and determines a non-prime attribute.\<close>

definition partial_dependency :: "'a set \<Rightarrow> 'a fd list \<Rightarrow> 'a set list \<Rightarrow> 'a fd \<Rightarrow> bool" where
  "partial_dependency relation_attrs fds candidate_keys fd \<longleftrightarrow>
     fst fd \<subseteq> relation_attrs \<and> snd fd \<subseteq> relation_attrs
     \<and> \<not> relation_attrs \<subseteq> attribute_closure (fst fd) fds
     \<and> list_ex (\<lambda>key. fst fd \<subset> key) candidate_keys
     \<and> (snd fd - fst fd) - \<Union> (set candidate_keys) \<noteq> {}"


lemma fold_prime: "fold (\<lambda>key acc. acc \<union> key) ks S = S \<union> \<Union> (set ks)"
  by (induction ks arbitrary: S) auto

lemma prime_attributes_eq: "prime_attributes ks = \<Union> (set ks)"
  by (simp add: prime_attributes_def fold_prime)

lemma is_proper_subset_of_key_iff:
  "is_proper_subset_of_key lhs keys \<longleftrightarrow> list_ex (\<lambda>key. lhs \<subset> key) keys"
  by (induction keys) auto

lemma check_fd_2nf:
  "fst (check_fd A fds keys fd st) =
     (if partial_dependency A fds keys fd
      then fst st @ [(fst fd, (snd fd - fst fd) - \<Union> (set keys), ''Partial dependency'')]
      else fst st)"
proof -
  obtain lhs rhs where fd: "fd = (lhs, rhs)" by (cases fd)
  obtain v2 v3 vb where st: "st = (v2, v3, vb)" by (cases st)
  have ne: "rhs - lhs - \<Union> (set keys) \<noteq> {} \<Longrightarrow> rhs - lhs \<noteq> {}" by blast
  show ?thesis
    unfolding fd st check_fd_def partial_dependency_def
    using ne
    by (simp add: Let_def prime_attributes_eq is_proper_subset_of_key_iff)
qed

lemma collect_2nf_fold:
  "fst (fold (check_fd A fds keys) xs st) \<noteq> [] \<longleftrightarrow>
   fst st \<noteq> [] \<or> list_ex (partial_dependency A fds keys) xs"
proof (induction xs arbitrary: st)
  case Nil
  show ?case by simp
next
  case (Cons x xs)
  show ?case
    by (simp add: Cons.IH check_fd_2nf)
qed

lemma violations_2nf_nonempty_iff:
  "violations_2nf A fds keys \<noteq> [] \<longleftrightarrow> list_ex (partial_dependency A fds keys) fds"
  by (simp add: violations_2nf_def collect_violations_def collect_2nf_fold)


lemma determine_normal_form_unfold:
  "determine_normal_form A fds keys =
    (if violations_2nf A fds keys \<noteq> [] then
       (''1NF'', ''Violates 2NF (Partial Dependencies detected).'', violations_2nf A fds keys)
     else if violations_3nf A fds keys \<noteq> [] then
       (''2NF'', ''Violates 3NF (Transitive Dependencies detected).'', violations_3nf A fds keys)
     else if violations_bcnf A fds keys \<noteq> [] then
       (''3NF'', ''Violates BCNF (Dependencies where LHS is not a superkey detected).'',
        violations_bcnf A fds keys)
     else (''BCNF'', ''Satisfies BCNF (All determinants are superkeys).'', []))"
  unfolding determine_normal_form_def violations_2nf_def violations_3nf_def violations_bcnf_def
  by (cases "collect_violations A fds keys") simp

section \<open>Properties of the classifier\<close>

text \<open>
  C2. \<^verbatim>\<open>determine_normal_form\<close> returns the verdict \<open>1NF\<close> with the 2NF violations
  whenever its list of 2NF violations is non-empty; otherwise \<open>2NF\<close> with the 3NF violations
  whenever that list is non-empty; otherwise \<open>3NF\<close> with the BCNF violations whenever that
  list is non-empty; otherwise \<open>BCNF\<close> with no violations. In particular, when a 2NF
  violation exists (the list is non-empty, that is, some dependency of the list is a
  partial dependency), the verdict is \<open>1NF\<close> and none of \<open>2NF\<close>, \<open>3NF\<close>, \<open>BCNF\<close>.
\<close>

theorem determine_normal_form_precedence:
  "(violations_2nf A fds keys \<noteq> [] \<longrightarrow>
      determine_normal_form A fds keys =
        (''1NF'', ''Violates 2NF (Partial Dependencies detected).'', violations_2nf A fds keys))
   \<and> (violations_2nf A fds keys = [] \<and> violations_3nf A fds keys \<noteq> [] \<longrightarrow>
      determine_normal_form A fds keys =
        (''2NF'', ''Violates 3NF (Transitive Dependencies detected).'', violations_3nf A fds keys))
   \<and> (violations_2nf A fds keys = [] \<and> violations_3nf A fds keys = []
        \<and> violations_bcnf A fds keys \<noteq> [] \<longrightarrow>
      determine_normal_form A fds keys =
        (''3NF'', ''Violates BCNF (Dependencies where LHS is not a superkey detected).'',
         violations_bcnf A fds keys))
   \<and> (violations_2nf A fds keys = [] \<and> violations_3nf A fds keys = []
        \<and> violations_bcnf A fds keys = [] \<longrightarrow>
      determine_normal_form A fds keys =
        (''BCNF'', ''Satisfies BCNF (All determinants are superkeys).'', []))
   \<and> (violations_2nf A fds keys \<noteq> [] \<or> list_ex (partial_dependency A fds keys) fds \<longrightarrow>
      fst (determine_normal_form A fds keys) = ''1NF''
      \<and> fst (determine_normal_form A fds keys) \<noteq> ''2NF''
      \<and> fst (determine_normal_form A fds keys) \<noteq> ''3NF''
      \<and> fst (determine_normal_form A fds keys) \<noteq> ''BCNF'')"
  by (simp add: determine_normal_form_unfold violations_2nf_nonempty_iff)

theorem determine_normal_form_precedence_witness:
  "determine_normal_form {''A'', ''B'', ''C'', ''D'', ''E''}
      [({''A''}, {''B'', ''C''}), ({''C''}, {''D''})] [{''A'', ''E''}]
     = (''1NF'', ''Violates 2NF (Partial Dependencies detected).'',
        [({''A''}, {''B'', ''C''}, ''Partial dependency'')])
   \<and> determine_normal_form {''A'', ''B'', ''C''}
      [({''A''}, {''B''}), ({''B''}, {''C''})] [{''A''}]
     = (''2NF'', ''Violates 3NF (Transitive Dependencies detected).'',
        [({''B''}, {''C''}, ''Transitive dependency'')])
   \<and> determine_normal_form {''A'', ''B'', ''C''}
      [({''A'', ''B''}, {''C''}), ({''C''}, {''B''})] [{''A'', ''B''}, {''A'', ''C''}]
     = (''3NF'', ''Violates BCNF (Dependencies where LHS is not a superkey detected).'',
        [({''C''}, {''B''}, ''LHS is not a superkey'')])
   \<and> determine_normal_form {''A'', ''B''} [({''A''}, {''B''})] [{''A''}]
     = (''BCNF'', ''Satisfies BCNF (All determinants are superkeys).'', [])
   \<and> list_ex (partial_dependency {''A'', ''B'', ''C'', ''D'', ''E''}
        [({''A''}, {''B'', ''C''}), ({''C''}, {''D''})] [{''A'', ''E''}])
        [({''A''}, {''B'', ''C''}), ({''C''}, {''D''})]
   \<and> fst (determine_normal_form {''A'', ''B'', ''C'', ''D'', ''E''}
      [({''A''}, {''B'', ''C''}), ({''C''}, {''D''})] [{''A'', ''E''}]) \<noteq> ''2NF''"
proof -
  let ?A1 = "{''A'', ''B'', ''C'', ''D'', ''E''}"
  let ?F1 = "[({''A''}, {''B'', ''C''}), ({''C''}, {''D''})]"
  let ?K1 = "[{''A'', ''E''}]"
  have a1: "violations_2nf ?A1 ?F1 ?K1 = [({''A''}, {''B'', ''C''}, ''Partial dependency'')]"
    by code_simp
  then have h1: "violations_2nf ?A1 ?F1 ?K1 \<noteq> []" by simp
  note t1 = determine_normal_form_precedence [of ?A1 ?F1 ?K1]
  have r1: "determine_normal_form ?A1 ?F1 ?K1
      = (''1NF'', ''Violates 2NF (Partial Dependencies detected).'',
         [({''A''}, {''B'', ''C''}, ''Partial dependency'')])"
    using mp [OF conjunct1 [OF t1] h1] by (simp only: a1)
  have p1: "list_ex (partial_dependency ?A1 ?F1 ?K1) ?F1" by code_simp
  then have "violations_2nf ?A1 ?F1 ?K1 \<noteq> [] \<or> list_ex (partial_dependency ?A1 ?F1 ?K1) ?F1" ..
  from mp [OF conjunct2 [OF conjunct2 [OF conjunct2 [OF conjunct2 [OF t1]]]] this]
  have n1: "fst (determine_normal_form ?A1 ?F1 ?K1) \<noteq> ''2NF''" by (elim conjE)
  let ?A2 = "{''A'', ''B'', ''C''}"
  let ?F2 = "[({''A''}, {''B''}), ({''B''}, {''C''})]"
  let ?K2 = "[{''A''}]"
  have a2: "violations_2nf ?A2 ?F2 ?K2 = []" by code_simp
  have b2: "violations_3nf ?A2 ?F2 ?K2 = [({''B''}, {''C''}, ''Transitive dependency'')]"
    by code_simp
  then have "violations_3nf ?A2 ?F2 ?K2 \<noteq> []" by simp
  with a2 have h2: "violations_2nf ?A2 ?F2 ?K2 = [] \<and> violations_3nf ?A2 ?F2 ?K2 \<noteq> []" ..
  note t2 = determine_normal_form_precedence [of ?A2 ?F2 ?K2]
  have r2: "determine_normal_form ?A2 ?F2 ?K2
      = (''2NF'', ''Violates 3NF (Transitive Dependencies detected).'',
         [({''B''}, {''C''}, ''Transitive dependency'')])"
    using mp [OF conjunct1 [OF conjunct2 [OF t2]] h2] by (simp only: b2)
  let ?F3 = "[({''A'', ''B''}, {''C''}), ({''C''}, {''B''})]"
  let ?K3 = "[{''A'', ''B''}, {''A'', ''C''}]"
  have a3: "violations_2nf ?A2 ?F3 ?K3 = []" by code_simp
  have b3: "violations_3nf ?A2 ?F3 ?K3 = []" by code_simp
  have c3: "violations_bcnf ?A2 ?F3 ?K3 = [({''C''}, {''B''}, ''LHS is not a superkey'')]"
    by code_simp
  then have "violations_bcnf ?A2 ?F3 ?K3 \<noteq> []" by simp
  with a3 b3 have h3: "violations_2nf ?A2 ?F3 ?K3 = [] \<and> violations_3nf ?A2 ?F3 ?K3 = []
      \<and> violations_bcnf ?A2 ?F3 ?K3 \<noteq> []" by (intro conjI)
  note t3 = determine_normal_form_precedence [of ?A2 ?F3 ?K3]
  have r3: "determine_normal_form ?A2 ?F3 ?K3
      = (''3NF'', ''Violates BCNF (Dependencies where LHS is not a superkey detected).'',
         [({''C''}, {''B''}, ''LHS is not a superkey'')])"
    using mp [OF conjunct1 [OF conjunct2 [OF conjunct2 [OF t3]]] h3] by (simp only: c3)
  let ?A4 = "{''A'', ''B''}"
  let ?F4 = "[({''A''}, {''B''})]"
  let ?K4 = "[{''A''}]"
  have a4: "violations_2nf ?A4 ?F4 ?K4 = []" by code_simp
  have b4: "violations_3nf ?A4 ?F4 ?K4 = []" by code_simp
  have c4: "violations_bcnf ?A4 ?F4 ?K4 = []" by code_simp
  from a4 b4 c4 have h4: "violations_2nf ?A4 ?F4 ?K4 = [] \<and> violations_3nf ?A4 ?F4 ?K4 = []
      \<and> violations_bcnf ?A4 ?F4 ?K4 = []" by (intro conjI)
  note t4 = determine_normal_form_precedence [of ?A4 ?F4 ?K4]
  have r4: "determine_normal_form ?A4 ?F4 ?K4
      = (''BCNF'', ''Satisfies BCNF (All determinants are superkeys).'', [])"
    using mp [OF conjunct1 [OF conjunct2 [OF conjunct2 [OF conjunct2 [OF t4]]]] h4] .
  show ?thesis
    by (intro conjI r1 r2 r3 r4 p1 n1)
qed


section \<open>BCNF decomposer\<close>

text \<open>A schema is the dictionary \<^verbatim>\<open>{'name': ..., 'attrs': ...}\<close>.\<close>

record 'a schema =
  name :: pystr
  attrs :: "'a set"

text \<open>
  A decomposition step. The source stores the violating dependency \<open>X \<rightarrow> Y\<close> twice as
  formatted text (\<^verbatim>\<open>violating_fd\<close> and \<^verbatim>\<open>explanation\<close>), which prints the two sets in an
  order the language does not fix; the record keeps the pair \<open>(X, Y)\<close> that is printed.
\<close>

record 'a step =
  current_relation :: "'a schema"
  violating_fd :: "'a set \<times> 'a set"
  new_relations :: "'a schema list"

text \<open>The \<^verbatim>\<open>for lhs, rhs in fds\<close> loop that looks for the first violation of a schema;
  \<open>None\<close> is the value \<^verbatim>\<open>violation = None\<close> the loop starts from.\<close>

fun find_violation :: "'a fd list \<Rightarrow> 'a set \<Rightarrow> 'a fd list \<Rightarrow> ('a set \<times> 'a set) option" where
  "find_violation fds schema_attrs [] = None"
| "find_violation fds schema_attrs ((lhs, rhs) # rest) =
     (if \<not> lhs \<subseteq> schema_attrs then find_violation fds schema_attrs rest
      else
        let full_closure = attribute_closure lhs fds;
            local_closure = full_closure \<inter> schema_attrs;
            determined_in_relation = local_closure - lhs
        in if determined_in_relation = {} then find_violation fds schema_attrs rest
           else if \<not> schema_attrs \<subseteq> local_closure then Some (lhs, determined_in_relation)
           else find_violation fds schema_attrs rest)"

text \<open>
  The \<^verbatim>\<open>while queue and iterations < 50\<close> loop. Its state is the iteration counter, the
  queue, the steps and the final schemas; the state at the exit of the loop is returned.
\<close>

function decompose_loop ::
  "'a fd list \<Rightarrow> nat \<Rightarrow> 'a schema list \<Rightarrow> 'a step list \<Rightarrow> 'a schema list \<Rightarrow>
   nat \<times> 'a schema list \<times> 'a step list \<times> 'a schema list" where
  "decompose_loop fds iterations queue steps final_schemas =
     (case queue of
        [] \<Rightarrow> (iterations, queue, steps, final_schemas)
      | schema # queue' \<Rightarrow>
          if iterations < 50 then
            (case find_violation fds (attrs schema) fds of
               Some (X, Y) \<Rightarrow>
                 let attrs1 = X \<union> Y;
                     name1 = name schema @ ascii ''_1'';
                     attrs2 = attrs schema - (Y - X);
                     name2 = name schema @ ascii ''_2'';
                     schema1 = \<lparr>name = name1, attrs = attrs1\<rparr>;
                     schema2 = \<lparr>name = name2, attrs = attrs2\<rparr>
                 in decompose_loop fds (iterations + 1) (queue' @ [schema1, schema2])
                      (steps @ [\<lparr>current_relation = schema, violating_fd = (X, Y),
                                 new_relations = [schema1, schema2]\<rparr>])
                      final_schemas
             | None \<Rightarrow>
                 decompose_loop fds (iterations + 1) queue' steps (final_schemas @ [schema]))
          else (iterations, queue, steps, final_schemas))"
  by pat_completeness auto
termination
  by (relation "measure (\<lambda>(fds, iterations, queue, steps, final_schemas). 50 - iterations)")
     auto

declare decompose_loop.simps [simp del]

definition decompose_run ::
  "pystr \<Rightarrow> 'a set \<Rightarrow> 'a fd list \<Rightarrow> nat \<times> 'a schema list \<times> 'a step list \<times> 'a schema list" where
  "decompose_run relation_name relation_attrs fds =
     decompose_loop fds 0 [\<lparr>name = relation_name, attrs = relation_attrs\<rparr>] [] []"

definition decompose_to_bcnf ::
  "pystr \<Rightarrow> 'a set \<Rightarrow> 'a fd list \<Rightarrow> 'a step list \<times> 'a schema list" where
  "decompose_to_bcnf relation_name relation_attrs fds =
     (case decompose_run relation_name relation_attrs fds of
        (iterations, queue, steps, final_schemas) \<Rightarrow> (steps, final_schemas))"


text \<open>The two schemas a violation \<open>X \<rightarrow> Y\<close> splits a schema into, and the recorded step.\<close>

definition split_step :: "'a schema \<Rightarrow> 'a set \<Rightarrow> 'a set \<Rightarrow> 'a step" where
  "split_step schema X Y =
     \<lparr>current_relation = schema, violating_fd = (X, Y),
      new_relations = [\<lparr>name = name schema @ ascii ''_1'', attrs = X \<union> Y\<rparr>,
                       \<lparr>name = name schema @ ascii ''_2'', attrs = attrs schema - (Y - X)\<rparr>]\<rparr>"

lemma decompose_loop_exit:
  "queue = [] \<or> \<not> iterations < 50 \<Longrightarrow>
   decompose_loop fds iterations queue steps final_schemas
     = (iterations, queue, steps, final_schemas)"
  by (subst decompose_loop.simps) (auto split: list.splits)

lemma decompose_loop_split:
  "iterations < 50 \<Longrightarrow> find_violation fds (attrs schema) fds = Some (X, Y) \<Longrightarrow>
   decompose_loop fds iterations (schema # queue) steps final_schemas
     = decompose_loop fds (iterations + 1)
         (queue @ new_relations (split_step schema X Y))
         (steps @ [split_step schema X Y]) final_schemas"
  by (subst decompose_loop.simps) (simp add: split_step_def Let_def)

lemma decompose_loop_final:
  "iterations < 50 \<Longrightarrow> find_violation fds (attrs schema) fds = None \<Longrightarrow>
   decompose_loop fds iterations (schema # queue) steps final_schemas
     = decompose_loop fds (iterations + 1) queue steps (final_schemas @ [schema])"
  by (subst decompose_loop.simps) simp

text \<open>An invariant of the loop holds of the state it returns, and the loop stops only
  with an empty queue or at the cap.\<close>

lemma decompose_loop_invariant:
  assumes "P (iterations, queue, steps, final_schemas)"
    and "\<And>i schema q s f X Y.
        P (i, schema # q, s, f) \<Longrightarrow> i < 50 \<Longrightarrow>
        find_violation fds (attrs schema) fds = Some (X, Y) \<Longrightarrow>
        P (i + 1, q @ new_relations (split_step schema X Y), s @ [split_step schema X Y], f)"
    and "\<And>i schema q s f.
        P (i, schema # q, s, f) \<Longrightarrow> i < 50 \<Longrightarrow>
        find_violation fds (attrs schema) fds = None \<Longrightarrow>
        P (i + 1, q, s, f @ [schema])"
  shows "P (decompose_loop fds iterations queue steps final_schemas)
    \<and> (fst (snd (decompose_loop fds iterations queue steps final_schemas)) = []
       \<or> \<not> fst (decompose_loop fds iterations queue steps final_schemas) < 50)"
  using assms
proof (induction fds iterations queue steps final_schemas rule: decompose_loop.induct)
  case (1 fds iterations queue steps final_schemas)
  note init = "1.prems"(1) and split = "1.prems"(2) and final = "1.prems"(3)
  show ?case
  proof (cases "queue = [] \<or> \<not> iterations < 50")
    case True
    from decompose_loop_exit [OF True] True init show ?thesis by auto
  next
    case False
    then obtain schema queue' where q: "queue = schema # queue'" and lt: "iterations < 50"
      by (cases queue) auto
    show ?thesis
    proof (cases "find_violation fds (attrs schema) fds")
      case None
      have "P (iterations + 1, queue', steps, final_schemas @ [schema])"
        using init lt None unfolding q by (rule final)
      have eq: "decompose_loop fds iterations queue steps final_schemas
          = decompose_loop fds (iterations + 1) queue' steps (final_schemas @ [schema])"
        unfolding q by (rule decompose_loop_final [OF lt None])
      show ?thesis unfolding eq
        by (rule "1.IH"(1) [OF q lt None _ split final]) fact
    next
      case (Some v)
      obtain X Y where v: "v = (X, Y)" by (cases v)
      note viol = Some [unfolded v]
      have P': "P (iterations + 1, queue' @ new_relations (split_step schema X Y),
          steps @ [split_step schema X Y], final_schemas)"
        using init lt viol unfolding q by (rule split)
      have eq: "decompose_loop fds iterations queue steps final_schemas
          = decompose_loop fds (iterations + 1) (queue' @ new_relations (split_step schema X Y))
              (steps @ [split_step schema X Y]) final_schemas"
        unfolding q by (rule decompose_loop_split [OF lt viol])
      note ih = "1.IH"(2) [OF q lt viol refl refl refl refl refl refl refl _ split final,
          folded split_step_def]
      have sel: "[\<lparr>name = name schema @ ascii ''_1'', attrs = X \<union> Y\<rparr>,
          \<lparr>name = name schema @ ascii ''_2'', attrs = attrs schema - (Y - X)\<rparr>]
          = new_relations (split_step schema X Y)"
        by (simp add: split_step_def)
      show ?thesis unfolding eq
        by (rule ih [unfolded sel]) (rule P')
    qed
  qed
qed


lemma find_violation_Some:
  "find_violation fds A xs = Some (X, Y) \<Longrightarrow>
   X \<subseteq> A \<and> Y = attribute_closure X fds \<inter> A - X \<and> Y \<noteq> {}
   \<and> \<not> A \<subseteq> attribute_closure X fds \<inter> A"
proof (induction fds A xs rule: find_violation.induct)
  case (1 fds schema_attrs)
  then show ?case by simp
next
  case (2 fds schema_attrs lhs rhs rest)
  let ?d = "attribute_closure lhs fds \<inter> schema_attrs - lhs"
  consider (skip) "find_violation fds schema_attrs ((lhs, rhs) # rest)
        = find_violation fds schema_attrs rest"
      "\<not> lhs \<subseteq> schema_attrs \<or> (lhs \<subseteq> schema_attrs \<and> ?d = {})
        \<or> (lhs \<subseteq> schema_attrs \<and> ?d \<noteq> {}
            \<and> schema_attrs \<subseteq> attribute_closure lhs fds \<inter> schema_attrs)"
    | (found) "lhs \<subseteq> schema_attrs" "?d \<noteq> {}"
      "\<not> schema_attrs \<subseteq> attribute_closure lhs fds \<inter> schema_attrs"
    by (cases "lhs \<subseteq> schema_attrs"; cases "?d = {}";
        cases "schema_attrs \<subseteq> attribute_closure lhs fds \<inter> schema_attrs")
       (simp_all add: Let_def)
  then show ?case
  proof cases
    case skip
    from skip(1) "2.prems" have r: "find_violation fds schema_attrs rest = Some (X, Y)"
      by simp
    from skip(2) show ?thesis
    proof (elim disjE conjE)
      assume a: "\<not> lhs \<subseteq> schema_attrs"
      from "2.IH"(1) [OF a r] show ?thesis .
    next
      assume a: "lhs \<subseteq> schema_attrs" and e: "?d = {}"
      then have "\<not> \<not> lhs \<subseteq> schema_attrs" by simp
      from "2.IH"(2) [OF this refl refl refl e r] show ?thesis .
    next
      assume a: "lhs \<subseteq> schema_attrs" and ne: "?d \<noteq> {}"
        and sk: "schema_attrs \<subseteq> attribute_closure lhs fds \<inter> schema_attrs"
      from a have a': "\<not> \<not> lhs \<subseteq> schema_attrs" by simp
      from sk have sk': "\<not> \<not> schema_attrs \<subseteq> attribute_closure lhs fds \<inter> schema_attrs"
        by simp
      from "2.IH"(3) [OF a' refl refl refl ne sk' r] show ?thesis .
    qed
  next
    case found
    then have "find_violation fds schema_attrs ((lhs, rhs) # rest) = Some (lhs, ?d)"
      by (simp add: Let_def)
    with "2.prems" have "X = lhs" and "Y = ?d" by simp_all
    then show ?thesis using found by (simp only: simp_thms)
  qed
qed

definition step_lossless :: "'a step \<Rightarrow> bool" where
  "step_lossless st \<longleftrightarrow>
     (case new_relations st of
        [schema1, schema2] \<Rightarrow>
          attrs schema1 \<union> attrs schema2 = attrs (current_relation st)
          \<and> attrs schema1 \<inter> attrs schema2 = fst (violating_fd st)
      | _ \<Rightarrow> False)"

lemma split_step_lossless:
  assumes "find_violation fds (attrs schema) fds = Some (X, Y)"
  shows "step_lossless (split_step schema X Y)"
proof -
  from find_violation_Some [OF assms]
  have X: "X \<subseteq> attrs schema" and Y: "Y = attribute_closure X fds \<inter> attrs schema - X"
    by simp_all
  from Y have "Y \<subseteq> attrs schema" "Y \<inter> X = {}" by blast+
  with X show ?thesis
    unfolding step_lossless_def split_step_def by auto
qed

lemma decompose_loop_lossless:
  assumes "\<forall>st \<in> set steps. step_lossless st"
  shows "\<forall>st \<in> set (fst (snd (snd (decompose_loop fds iterations queue steps final_schemas)))).
     step_lossless st"
proof -
  let ?P = "\<lambda>state :: nat \<times> 'a schema list \<times> 'a step list \<times> 'a schema list.
    \<forall>st \<in> set (fst (snd (snd state))). step_lossless st"
  have "?P (decompose_loop fds iterations queue steps final_schemas)
    \<and> (fst (snd (decompose_loop fds iterations queue steps final_schemas)) = []
       \<or> \<not> fst (decompose_loop fds iterations queue steps final_schemas) < 50)"
  proof (rule decompose_loop_invariant [where P = ?P], goal_cases)
    case 1
    show ?case using assms by simp
  next
    case (2 i schema q s f X Y)
    then show ?case
      using split_step_lossless [of fds schema X Y] by simp
  next
    case (3 i schema q s f)
    then show ?case by simp
  qed
  then show ?thesis ..
qed

lemma decompose_to_bcnf_run:
  "decompose_to_bcnf n A fds =
     (fst (snd (snd (decompose_run n A fds))), snd (snd (snd (decompose_run n A fds))))"
  by (simp add: decompose_to_bcnf_def split: prod.splits)


text \<open>The components of the state in which the loop stops.\<close>

definition exit_iterations :: "nat \<times> 'a schema list \<times> 'a step list \<times> 'a schema list \<Rightarrow> nat" where
  "exit_iterations st = fst st"

definition exit_queue ::
  "nat \<times> 'a schema list \<times> 'a step list \<times> 'a schema list \<Rightarrow> 'a schema list" where
  "exit_queue st = fst (snd st)"

definition exit_steps ::
  "nat \<times> 'a schema list \<times> 'a step list \<times> 'a schema list \<Rightarrow> 'a step list" where
  "exit_steps st = fst (snd (snd st))"

definition exit_final_schemas ::
  "nat \<times> 'a schema list \<times> 'a step list \<times> 'a schema list \<Rightarrow> 'a schema list" where
  "exit_final_schemas st = snd (snd (snd st))"

lemma decompose_run_counts:
  "exit_iterations (decompose_run n A fds) \<le> 50
   \<and> exit_iterations (decompose_run n A fds)
       = length (exit_steps (decompose_run n A fds))
         + length (exit_final_schemas (decompose_run n A fds))
   \<and> length (exit_queue (decompose_run n A fds))
         + length (exit_final_schemas (decompose_run n A fds))
       = 1 + length (exit_steps (decompose_run n A fds))
   \<and> (exit_queue (decompose_run n A fds) = [] \<or> exit_iterations (decompose_run n A fds) = 50)"
proof -
  let ?P = "\<lambda>st :: nat \<times> 'a schema list \<times> 'a step list \<times> 'a schema list.
    exit_iterations st \<le> 50
    \<and> exit_iterations st = length (exit_steps st) + length (exit_final_schemas st)
    \<and> length (exit_queue st) + length (exit_final_schemas st) = 1 + length (exit_steps st)"
  have "?P (decompose_loop fds 0 [\<lparr>name = n, attrs = A\<rparr>] [] [])
    \<and> (fst (snd (decompose_loop fds 0 [\<lparr>name = n, attrs = A\<rparr>] [] [])) = []
       \<or> \<not> fst (decompose_loop fds 0 [\<lparr>name = n, attrs = A\<rparr>] [] []) < 50)"
  proof (rule decompose_loop_invariant [where P = ?P], goal_cases)
    case 1
    show ?case
      by (simp add: exit_iterations_def exit_steps_def exit_final_schemas_def exit_queue_def)
  next
    case (2 i schema q s f X Y)
    then show ?case
      by (simp add: exit_iterations_def exit_steps_def exit_final_schemas_def exit_queue_def
          split_step_def)
  next
    case (3 i schema q s f)
    then show ?case
      by (simp add: exit_iterations_def exit_steps_def exit_final_schemas_def exit_queue_def)
  qed
  then show ?thesis
    unfolding decompose_run_def exit_iterations_def exit_queue_def by linarith
qed

text \<open>A relation with 26 independent dependencies \<open>a\<^sub>i \<rightarrow> b\<^sub>i\<close>: its decomposition needs
  26 splits and 53 iterations.\<close>

definition star_attrs :: "string set" where
  "star_attrs =
     {''a1'', ''b1'', ''a2'', ''b2'', ''a3'', ''b3'', ''a4'', ''b4'', ''a5'', ''b5'',
      ''a6'', ''b6'', ''a7'', ''b7'', ''a8'', ''b8'', ''a9'', ''b9'', ''a10'', ''b10'',
      ''a11'', ''b11'', ''a12'', ''b12'', ''a13'', ''b13'', ''a14'', ''b14'', ''a15'',
      ''b15'', ''a16'', ''b16'', ''a17'', ''b17'', ''a18'', ''b18'', ''a19'', ''b19'',
      ''a20'', ''b20'', ''a21'', ''b21'', ''a22'', ''b22'', ''a23'', ''b23'', ''a24'',
      ''b24'', ''a25'', ''b25'', ''a26'', ''b26''}"

definition star_fds :: "string fd list" where
  "star_fds =
     [({''a1''}, {''b1''}), ({''a2''}, {''b2''}), ({''a3''}, {''b3''}), ({''a4''},
      {''b4''}), ({''a5''}, {''b5''}), ({''a6''}, {''b6''}), ({''a7''}, {''b7''}),
      ({''a8''}, {''b8''}), ({''a9''}, {''b9''}), ({''a10''}, {''b10''}), ({''a11''},
      {''b11''}), ({''a12''}, {''b12''}), ({''a13''}, {''b13''}), ({''a14''}, {''b14''}),
      ({''a15''}, {''b15''}), ({''a16''}, {''b16''}), ({''a17''}, {''b17''}), ({''a18''},
      {''b18''}), ({''a19''}, {''b19''}), ({''a20''}, {''b20''}), ({''a21''}, {''b21''}),
      ({''a22''}, {''b22''}), ({''a23''}, {''b23''}), ({''a24''}, {''b24''}), ({''a25''},
      {''b25''}), ({''a26''}, {''b26''})]"

text \<open>A summary of the state at the exit: the counter, the attribute sets still
  queued, and the attribute sets of the final schemas.\<close>

definition exit_summary ::
  "nat \<times> 'a schema list \<times> 'a step list \<times> 'a schema list \<Rightarrow> nat \<times> 'a set list \<times> 'a set list" where
  "exit_summary st =
     (exit_iterations st, map attrs (exit_queue st), map attrs (exit_final_schemas st))"

lemma star_run_summary:
  "exit_summary (decompose_run (ascii ''R'') star_attrs star_fds)
   = (50,
      [{''a1'', ''a2'', ''a3'', ''a4'', ''a5'', ''a6'', ''a7'', ''a8'', ''a9'', ''a10'',
        ''a11'', ''a12'', ''a13'', ''a14'', ''a15'', ''a16'', ''a17'', ''a18'', ''a19'',
        ''a20'', ''a21'', ''a22'', ''a23'', ''a24'', ''a25'', ''a26'', ''b26''}],
      [{''a1'', ''b1''}, {''a2'', ''b2''}, {''a3'', ''b3''}, {''a4'', ''b4''}, {''a5'',
       ''b5''}, {''a6'', ''b6''}, {''a7'', ''b7''}, {''a8'', ''b8''}, {''a9'', ''b9''},
       {''a10'', ''b10''}, {''a11'', ''b11''}, {''a12'', ''b12''}, {''a13'', ''b13''},
       {''a14'', ''b14''}, {''a15'', ''b15''}, {''a16'', ''b16''}, {''a17'', ''b17''},
       {''a18'', ''b18''}, {''a19'', ''b19''}, {''a20'', ''b20''}, {''a21'', ''b21''},
       {''a22'', ''b22''}, {''a23'', ''b23''}, {''a24'', ''b24''}, {''a25'', ''b25''}])"
  by code_simp

lemma star_run_facts:
  "exit_iterations (decompose_run (ascii ''R'') star_attrs star_fds) = 50"
  "map attrs (exit_queue (decompose_run (ascii ''R'') star_attrs star_fds))
     = [{''a1'', ''a2'', ''a3'', ''a4'', ''a5'', ''a6'', ''a7'', ''a8'', ''a9'', ''a10'',
         ''a11'', ''a12'', ''a13'', ''a14'', ''a15'', ''a16'', ''a17'', ''a18'', ''a19'',
         ''a20'', ''a21'', ''a22'', ''a23'', ''a24'', ''a25'', ''a26'', ''b26''}]"
  "map attrs (exit_final_schemas (decompose_run (ascii ''R'') star_attrs star_fds))
     = [{''a1'', ''b1''}, {''a2'', ''b2''}, {''a3'', ''b3''}, {''a4'', ''b4''}, {''a5'',
       ''b5''}, {''a6'', ''b6''}, {''a7'', ''b7''}, {''a8'', ''b8''}, {''a9'', ''b9''},
       {''a10'', ''b10''}, {''a11'', ''b11''}, {''a12'', ''b12''}, {''a13'', ''b13''},
       {''a14'', ''b14''}, {''a15'', ''b15''}, {''a16'', ''b16''}, {''a17'', ''b17''},
       {''a18'', ''b18''}, {''a19'', ''b19''}, {''a20'', ''b20''}, {''a21'', ''b21''},
       {''a22'', ''b22''}, {''a23'', ''b23''}, {''a24'', ''b24''}, {''a25'', ''b25''}]"
  using star_run_summary unfolding exit_summary_def prod.inject by blast+




section \<open>Properties of the decomposer\<close>

text \<open>
  C3. Every decomposition step recorded by \<^verbatim>\<open>decompose_to_bcnf\<close> has exactly two child
  schemas; the union of their attribute sets is the attribute set of the source schema
  (no attribute is dropped), and the intersection of their attribute sets is the
  determinant of the violating dependency (hence contains it).
\<close>

theorem decompose_to_bcnf_steps_lossless:
  "\<forall>st \<in> set (fst (decompose_to_bcnf relation_name relation_attrs fds)).
     (case new_relations st of
        [schema1, schema2] \<Rightarrow>
          attrs schema1 \<union> attrs schema2 = attrs (current_relation st)
          \<and> attrs schema1 \<inter> attrs schema2 = fst (violating_fd st)
      | _ \<Rightarrow> False)"
  using decompose_loop_lossless
    [of "[]" fds 0 "[\<lparr>name = relation_name, attrs = relation_attrs\<rparr>]" "[]"]
  unfolding decompose_to_bcnf_run decompose_run_def step_lossless_def by simp

theorem decompose_to_bcnf_steps_lossless_witness:
  "fst (decompose_to_bcnf (ascii ''R'') {''A'', ''B'', ''C''} [({''A''}, {''B''})])
     = [\<lparr>current_relation = \<lparr>name = ascii ''R'', attrs = {''A'', ''B'', ''C''}\<rparr>,
         violating_fd = ({''A''}, {''B''}),
         new_relations = [\<lparr>name = ascii ''R_1'', attrs = {''A'', ''B''}\<rparr>,
                          \<lparr>name = ascii ''R_2'', attrs = {''A'', ''C''}\<rparr>]\<rparr>]
   \<and> {''A'', ''B''} \<union> {''A'', ''C''} = {''A'', ''B'', ''C''}
   \<and> {''A'', ''B''} \<inter> {''A'', ''C''} = {''A''}"
proof -
  have v: "fst (decompose_to_bcnf (ascii ''R'') {''A'', ''B'', ''C''} [({''A''}, {''B''})])
     = [\<lparr>current_relation = \<lparr>name = ascii ''R'', attrs = {''A'', ''B'', ''C''}\<rparr>,
         violating_fd = ({''A''}, {''B''}),
         new_relations = [\<lparr>name = ascii ''R_1'', attrs = {''A'', ''B''}\<rparr>,
                          \<lparr>name = ascii ''R_2'', attrs = {''A'', ''C''}\<rparr>]\<rparr>]"
    by code_simp
  from decompose_to_bcnf_steps_lossless
    [of "ascii ''R''" "{''A'', ''B'', ''C''}" "[({''A''}, {''B''})]", unfolded v]
  have "\<forall>st \<in> set [\<lparr>current_relation = \<lparr>name = ascii ''R'', attrs = {''A'', ''B'', ''C''}\<rparr>,
         violating_fd = ({''A''}, {''B''}),
         new_relations = [\<lparr>name = ascii ''R_1'', attrs = {''A'', ''B''}\<rparr>,
                          \<lparr>name = ascii ''R_2'', attrs = {''A'', ''C''}\<rparr>]\<rparr>].
     (case new_relations st of
        [schema1, schema2] \<Rightarrow>
          attrs schema1 \<union> attrs schema2 = attrs (current_relation st)
          \<and> attrs schema1 \<inter> attrs schema2 = fst (violating_fd st)
      | _ \<Rightarrow> False)" .
  then have "{''A'', ''B''} \<union> {''A'', ''C''} = {''A'', ''B'', ''C''}
    \<and> {''A'', ''B''} \<inter> {''A'', ''C''} = {''A''}"
    by (simp only: list.set ball_simps step.select_convs schema.select_convs list.case fst_conv)
  with v show ?thesis by (rule conjI)
qed

text \<open>
  C4, as the specification states it: reaching the cap of 50 iterations with a non-empty
  queue is reported as a distinct condition instead of a truncated result. The code has
  no such report. For the relation \<open>star_attrs\<close> with the dependencies \<open>star_fds\<close> the loop
  stops at 50 iterations with a schema still queued, and \<^verbatim>\<open>decompose_to_bcnf\<close> returns the
  steps and final schemas reached so far as an ordinary result, in which the attribute
  \<open>b26\<close> of the relation occurs in no final schema.
\<close>

theorem decompose_to_bcnf_cap_counterexample:
  "exit_iterations (decompose_run (ascii ''R'') star_attrs star_fds) = 50
   \<and> exit_queue (decompose_run (ascii ''R'') star_attrs star_fds) \<noteq> []
   \<and> decompose_to_bcnf (ascii ''R'') star_attrs star_fds
       = (exit_steps (decompose_run (ascii ''R'') star_attrs star_fds),
          exit_final_schemas (decompose_run (ascii ''R'') star_attrs star_fds))
   \<and> ''b26'' \<in> star_attrs
   \<and> ''b26'' \<notin> \<Union> (set (map attrs (snd (decompose_to_bcnf (ascii ''R'') star_attrs star_fds))))"
proof -
  have q: "exit_queue (decompose_run (ascii ''R'') star_attrs star_fds) \<noteq> []"
  proof
    assume "exit_queue (decompose_run (ascii ''R'') star_attrs star_fds) = []"
    then have "map attrs (exit_queue (decompose_run (ascii ''R'') star_attrs star_fds)) = []"
      by (simp only: list.map)
    then show False
      by (simp only: star_run_facts(2) list.distinct)
  qed
  have r: "decompose_to_bcnf (ascii ''R'') star_attrs star_fds
       = (exit_steps (decompose_run (ascii ''R'') star_attrs star_fds),
          exit_final_schemas (decompose_run (ascii ''R'') star_attrs star_fds))"
    by (simp only: decompose_to_bcnf_run exit_steps_def exit_final_schemas_def)
  have m: "''b26'' \<in> star_attrs"
    by code_simp
  have "''b26'' \<notin> \<Union> (set (map attrs
      (exit_final_schemas (decompose_run (ascii ''R'') star_attrs star_fds))))"
    unfolding star_run_facts(3) by code_simp
  then have d: "''b26'' \<notin> \<Union> (set (map attrs
      (snd (decompose_to_bcnf (ascii ''R'') star_attrs star_fds))))"
    by (simp only: r snd_conv simp_thms)
  show ?thesis
    by (intro conjI star_run_facts(1) q r m d)
qed

text \<open>
  C4, amended: \<^verbatim>\<open>decompose_to_bcnf\<close> reports nothing when the cap is reached. It runs at
  most 50 iterations, stops when the queue is empty or when the 50th iteration is done,
  and in both cases returns the steps and the final schemas accumulated so far. Every
  iteration records one step or one final schema, and the schemas still queued at the
  exit are left out of the result: queued plus final schemas are one more than the steps.
\<close>

theorem decompose_to_bcnf_cap_silent:
  "decompose_to_bcnf n A fds
       = (exit_steps (decompose_run n A fds), exit_final_schemas (decompose_run n A fds))
   \<and> exit_iterations (decompose_run n A fds) \<le> 50
   \<and> (exit_queue (decompose_run n A fds) = [] \<or> exit_iterations (decompose_run n A fds) = 50)
   \<and> exit_iterations (decompose_run n A fds)
       = length (exit_steps (decompose_run n A fds))
         + length (exit_final_schemas (decompose_run n A fds))
   \<and> length (exit_queue (decompose_run n A fds))
         + length (exit_final_schemas (decompose_run n A fds))
       = 1 + length (exit_steps (decompose_run n A fds))"
proof -
  have "decompose_to_bcnf n A fds
       = (exit_steps (decompose_run n A fds), exit_final_schemas (decompose_run n A fds))"
    by (simp only: decompose_to_bcnf_run exit_steps_def exit_final_schemas_def)
  with decompose_run_counts [of n A fds] show ?thesis by blast
qed

theorem decompose_to_bcnf_cap_silent_witness:
  "exit_iterations (decompose_run (ascii ''R'') star_attrs star_fds) = 50
   \<and> length (exit_final_schemas (decompose_run (ascii ''R'') star_attrs star_fds)) = 25
   \<and> length (exit_steps (decompose_run (ascii ''R'') star_attrs star_fds)) = 25
   \<and> length (exit_queue (decompose_run (ascii ''R'') star_attrs star_fds)) = 1
   \<and> length (snd (decompose_to_bcnf (ascii ''R'') star_attrs star_fds)) = 25"
proof -
  let ?st = "decompose_run (ascii ''R'') star_attrs star_fds"
  note t = decompose_to_bcnf_cap_silent [of "ascii ''R''" star_attrs star_fds]
  have i: "exit_iterations ?st = 50" by (rule star_run_facts(1))
  have "length (map attrs (exit_final_schemas ?st)) = 25"
    by (simp only: star_run_facts(3)) simp
  then have f: "length (exit_final_schemas ?st) = 25" by simp
  from t i f have s: "length (exit_steps ?st) = 25" by linarith
  from t f s have q: "length (exit_queue ?st) = 1" by linarith
  from t have "snd (decompose_to_bcnf (ascii ''R'') star_attrs star_fds) = exit_final_schemas ?st"
    by simp
  with f have r: "length (snd (decompose_to_bcnf (ascii ''R'') star_attrs star_fds)) = 25"
    by simp
  show ?thesis by (intro conjI i f s q r)
qed


section \<open>Parsing functional dependencies\<close>

text \<open>The exception that the tuple unpacking \<^verbatim>\<open>lhs_str, rhs_str = line.split(arrow)\<close>
  raises when the split gives more than two parts.\<close>

datatype error = ValueError

text \<open>The code points that \<^verbatim>\<open>str.strip()\<close> removes: Python's Unicode whitespace.\<close>

definition is_space :: "int \<Rightarrow> bool" where
  "is_space c \<longleftrightarrow>
     (9 \<le> c \<and> c \<le> 13) \<or> (28 \<le> c \<and> c \<le> 32) \<or> c = 133 \<or> c = 160 \<or> c = 5760
     \<or> (8192 \<le> c \<and> c \<le> 8202) \<or> c = 8232 \<or> c = 8233 \<or> c = 8239 \<or> c = 8287
     \<or> c = 12288"

definition strip :: "pystr \<Rightarrow> pystr" where
  "strip s = rev (dropWhile is_space (rev (dropWhile is_space s)))"

text \<open>\<^verbatim>\<open>sep in s\<close>: the string \<open>sep\<close> occurs in \<open>s\<close>.\<close>

fun py_in :: "'a list \<Rightarrow> 'a list \<Rightarrow> bool" where
  "py_in sep [] = (sep = [])"
| "py_in sep (c # cs) = (prefix sep (c # cs) \<or> py_in sep cs)"

text \<open>
  \<^verbatim>\<open>s.split(sep)\<close> for a non-empty separator: the text is scanned from the left, every
  occurrence of \<open>sep\<close> found closes the current part and the scan resumes behind it.
  \<open>acc\<close> holds the current part, reversed. (Python rejects an empty separator; the source
  only splits at the three constants below.)
\<close>

function py_split_acc :: "'a list \<Rightarrow> 'a list \<Rightarrow> 'a list \<Rightarrow> 'a list list" where
  "py_split_acc sep acc [] = [rev acc]"
| "py_split_acc sep acc (c # cs) =
     (if sep \<noteq> [] \<and> prefix sep (c # cs)
      then rev acc # py_split_acc sep [] (drop (length sep) (c # cs))
      else py_split_acc sep (c # acc) cs)"
  by pat_completeness auto
termination
  by (relation "measure (\<lambda>(sep, acc, s). length s)") auto

definition py_split :: "'a list \<Rightarrow> 'a list \<Rightarrow> 'a list list" where
  "py_split sep s = py_split_acc sep [] s"

text \<open>The two separators of a dependency, the comma and the line feed.\<close>

definition arrow_ascii :: pystr where
  "arrow_ascii = ascii ''->''"

definition arrow_unicode :: pystr where
  "arrow_unicode = [8594]"

definition comma :: pystr where
  "comma = ascii '',''"

definition newline :: pystr where
  "newline = [10]"

text \<open>The separator chosen for a line: \<^verbatim>\<open>arrow = "->"\<close>, replaced by the Unicode arrow
  when the line contains one.\<close>

definition select_arrow :: "pystr \<Rightarrow> pystr" where
  "select_arrow line = (if py_in arrow_unicode line then arrow_unicode else arrow_ascii)"

text \<open>\<^verbatim>\<open>set(attr.strip() for attr in side.split(","))\<close>.\<close>

definition attr_set :: "pystr \<Rightarrow> pystr set" where
  "attr_set side = set (map strip (py_split comma side))"

text \<open>The body of the loop over the lines, from the list \<^verbatim>\<open>fds\<close> before the line to the
  list after it, or to the exception.\<close>

definition parse_fds_line :: "pystr \<Rightarrow> pystr fd list \<Rightarrow> error + pystr fd list" where
  "parse_fds_line raw fds =
     (let line = strip raw in
      if line = [] then Inr fds
      else
        let arrow = select_arrow line in
        if py_in arrow line then
          (case py_split arrow line of
             [lhs_str, rhs_str] \<Rightarrow> Inr (fds @ [(attr_set lhs_str, attr_set rhs_str)])
           | _ \<Rightarrow> Inl ValueError)
        else Inr fds)"

fun parse_fds_lines :: "pystr list \<Rightarrow> pystr fd list \<Rightarrow> error + pystr fd list" where
  "parse_fds_lines [] fds = Inr fds"
| "parse_fds_lines (line # lines) fds =
     (case parse_fds_line line fds of
        Inl e \<Rightarrow> Inl e
      | Inr fds' \<Rightarrow> parse_fds_lines lines fds')"

definition fd_lines :: "pystr \<Rightarrow> pystr list" where
  "fd_lines fd_str = py_split newline (strip fd_str)"

definition parse_fds :: "pystr \<Rightarrow> error + pystr fd list" where
  "parse_fds fd_str = parse_fds_lines (fd_lines fd_str) []"


subsection \<open>Occurrences and splitting\<close>

lemma py_in_append: "py_in sep (a @ sep @ c)"
proof (induction a)
  case Nil
  show ?case
  proof (cases "sep @ c")
    case Nil
    then show ?thesis by simp
  next
    case (Cons x t)
    have "prefix sep (sep @ c)" by simp
    then have "prefix sep (x # t)" by (simp only: Cons)
    then show ?thesis by (simp add: Cons)
  qed
next
  case (Cons x a)
  then show ?case by simp
qed

lemma py_in_decompose: "py_in sep s \<Longrightarrow> \<exists>a c. s = a @ sep @ c"
proof (induction s)
  case Nil
  then show ?case by simp
next
  case (Cons x s)
  from Cons.prems consider "prefix sep (x # s)" | "py_in sep s" by auto
  then show ?case
  proof cases
    case 1
    then obtain c where "x # s = sep @ c" by (auto simp: prefix_def)
    then have "x # s = [] @ sep @ c" by simp
    then show ?thesis by blast
  next
    case 2
    from Cons.IH [OF this] obtain a c where "s = a @ sep @ c" by blast
    then have "x # s = (x # a) @ sep @ c" by simp
    then show ?thesis by blast
  qed
qed

lemma py_split_acc_nonempty: "py_split_acc sep acc s \<noteq> []"
  by (induction sep acc s rule: py_split_acc.induct) simp_all

lemma py_split_acc_absent:
  "\<not> py_in sep s \<Longrightarrow> py_split_acc sep acc s = [rev acc @ s]"
proof (induction s arbitrary: acc)
  case Nil
  show ?case by simp
next
  case (Cons x s)
  from Cons.prems have np: "\<not> prefix sep (x # s)" and ni: "\<not> py_in sep s" by simp_all
  from np Cons.IH [OF ni, of "x # acc"] show ?case by simp
qed

lemma py_split_acc_at_front:
  assumes "sep \<noteq> []"
  shows "py_split_acc sep acc (sep @ r) = rev acc # py_split_acc sep [] r"
proof -
  from assms obtain x t where xt: "sep @ r = x # t" by (cases sep) auto
  have "prefix sep (x # t)" unfolding xt [symmetric] by simp
  moreover have "drop (length sep) (x # t) = r" unfolding xt [symmetric] by simp
  ultimately show ?thesis unfolding xt using assms by simp
qed

lemma py_split_acc_two:
  assumes "sep \<noteq> []"
  shows "s = a @ sep @ c \<Longrightarrow> 2 \<le> length (py_split_acc sep acc s)"
proof (induction s arbitrary: a acc)
  case Nil
  with assms show ?case by simp
next
  case (Cons x s)
  show ?case
  proof (cases "prefix sep (x # s)")
    case True
    with assms have "py_split_acc sep acc (x # s)
        = rev acc # py_split_acc sep [] (drop (length sep) (x # s))"
      by simp
    moreover have "1 \<le> length (py_split_acc sep [] (drop (length sep) (x # s)))"
      using py_split_acc_nonempty [of sep "[]" "drop (length sep) (x # s)"]
      by (cases "py_split_acc sep [] (drop (length sep) (x # s))") simp_all
    ultimately show ?thesis by simp
  next
    case False
    have "a \<noteq> []"
    proof
      assume "a = []"
      with Cons.prems have "prefix sep (x # s)" by simp
      with False show False ..
    qed
    then obtain a' where a: "a = x # a'" using Cons.prems by (cases a) auto
    with Cons.prems have "s = a' @ sep @ c" by simp
    from Cons.IH [OF this, of "x # acc"] False show ?thesis by simp
  qed
qed

lemma py_split_acc_three:
  assumes "sep \<noteq> []"
  shows "s = a @ sep @ b @ sep @ c \<Longrightarrow> 3 \<le> length (py_split_acc sep acc s)"
proof (induction s arbitrary: a acc)
  case Nil
  with assms show ?case by simp
next
  case (Cons x s)
  show ?case
  proof (cases "prefix sep (x # s)")
    case True
    with assms have eq: "py_split_acc sep acc (x # s)
        = rev acc # py_split_acc sep [] (drop (length sep) (x # s))"
      by simp
    have "length sep \<le> length (a @ sep @ b)" by simp
    then have "drop (length sep) ((a @ sep @ b) @ sep @ c)
        = drop (length sep) (a @ sep @ b) @ sep @ c"
      by (simp only: drop_append) simp
    with Cons.prems have "drop (length sep) (x # s)
        = drop (length sep) (a @ sep @ b) @ sep @ c"
      by simp
    from py_split_acc_two [OF assms this, of "[]"] eq show ?thesis by simp
  next
    case False
    have "a \<noteq> []"
    proof
      assume "a = []"
      with Cons.prems have "prefix sep (x # s)" by simp
      with False show False ..
    qed
    then obtain a' where a: "a = x # a'" using Cons.prems by (cases a) auto
    with Cons.prems have "s = a' @ sep @ b @ sep @ c" by simp
    from Cons.IH [OF this, of "x # acc"] False show ?thesis by simp
  qed
qed

lemma prefix_butlast:
  "prefix sep s \<Longrightarrow> length sep < length s \<Longrightarrow> prefix sep (butlast s)"
  by (auto simp: prefix_def butlast_append)

lemma py_in_prefix: "sep \<noteq> [] \<Longrightarrow> prefix sep s \<Longrightarrow> py_in sep s"
  by (cases s) auto

lemma py_split_acc_at_end:
  assumes "sep \<noteq> []"
  shows "\<not> py_in sep (butlast (l @ sep)) \<Longrightarrow>
    py_split_acc sep acc (l @ sep) = [rev acc @ l, []]"
proof (induction l arbitrary: acc)
  case Nil
  from py_split_acc_at_front [OF assms, of acc "[]"] show ?case by simp
next
  case (Cons x l)
  have ne: "l @ sep \<noteq> []" using assms by simp
  have np: "\<not> prefix sep (x # l @ sep)"
  proof
    assume "prefix sep (x # l @ sep)"
    then have "prefix sep (butlast (x # l @ sep))"
      by (rule prefix_butlast) simp
    then have "py_in sep (butlast (x # l @ sep))"
      by (rule py_in_prefix [OF assms])
    with Cons.prems show False by simp
  qed
  from ne have "butlast (x # l @ sep) = x # butlast (l @ sep)" by simp
  with Cons.prems have "\<not> py_in sep (x # butlast (l @ sep))" by simp
  then have "\<not> py_in sep (butlast (l @ sep))" by simp
  from Cons.IH [OF this, of "x # acc"] np show ?case by simp
qed


subsection \<open>One line\<close>

lemma select_arrow_nonempty: "select_arrow line \<noteq> []"
  by (simp add: select_arrow_def arrow_unicode_def arrow_ascii_def ascii_def)

lemma attr_set_empty: "attr_set [] = {[]}"
  by (simp add: attr_set_def py_split_def strip_def)

lemma parse_fds_line_repeated:
  assumes "strip raw = a @ select_arrow (strip raw) @ b @ select_arrow (strip raw) @ c"
  shows "parse_fds_line raw fds = Inl ValueError"
proof -
  let ?line = "strip raw"
  let ?arrow = "select_arrow ?line"
  have ne: "?arrow \<noteq> []" by (rule select_arrow_nonempty)
  have "py_in ?arrow (a @ ?arrow @ (b @ ?arrow @ c))" by (rule py_in_append)
  with assms have occ: "py_in ?arrow ?line" by simp
  from ne assms have nonblank: "?line \<noteq> []"
    by (metis append_is_Nil_conv)
  from py_split_acc_three [OF ne assms, of "[]"]
  have "3 \<le> length (py_split ?arrow ?line)" by (simp only: py_split_def)
  then have "(case py_split ?arrow ?line of
       [lhs_str, rhs_str] \<Rightarrow> Inr (fds @ [(attr_set lhs_str, attr_set rhs_str)])
     | _ \<Rightarrow> Inl ValueError) = Inl ValueError"
    by (auto split: list.splits)
  with occ nonblank show ?thesis
    by (simp add: parse_fds_line_def Let_def)
qed

lemma parse_fds_line_no_separator:
  assumes "\<not> py_in arrow_ascii (strip raw)" and "\<not> py_in arrow_unicode (strip raw)"
  shows "parse_fds_line raw fds = Inr fds"
  using assms by (simp add: parse_fds_line_def Let_def select_arrow_def)

lemma parse_fds_line_two_parts:
  assumes "py_split (select_arrow (strip raw)) (strip raw) = [lhs_str, rhs_str]"
    and "py_in (select_arrow (strip raw)) (strip raw)"
  shows "parse_fds_line raw fds = Inr (fds @ [(attr_set lhs_str, attr_set rhs_str)])"
proof -
  from assms(2) select_arrow_nonempty [of "strip raw"] have "strip raw \<noteq> []"
    by (cases "strip raw") auto
  with assms show ?thesis
    by (simp add: parse_fds_line_def Let_def)
qed

lemma parse_fds_line_empty_left:
  assumes "strip raw = select_arrow (strip raw) @ r"
    and "\<not> py_in (select_arrow (strip raw)) r"
  shows "parse_fds_line raw fds = Inr (fds @ [({[]}, attr_set r)])"
proof -
  let ?arrow = "select_arrow (strip raw)"
  have ne: "?arrow \<noteq> []" by (rule select_arrow_nonempty)
  have "py_split ?arrow (?arrow @ r) = [[], r]"
    unfolding py_split_def py_split_acc_at_front [OF ne]
    using py_split_acc_absent [OF assms(2), of "[]"] by simp
  then have sp: "py_split ?arrow (strip raw) = [[], r]"
    using assms(1) by simp
  have "py_in ?arrow ([] @ ?arrow @ r)" by (rule py_in_append)
  then have "py_in ?arrow (strip raw)" using assms(1) by simp
  from parse_fds_line_two_parts [OF sp this] show ?thesis
    by (simp only: attr_set_empty)
qed

lemma parse_fds_line_empty_right:
  assumes "strip raw = lft @ select_arrow (strip raw)"
    and "\<not> py_in (select_arrow (strip raw)) (butlast (strip raw))"
  shows "parse_fds_line raw fds = Inr (fds @ [(attr_set lft, {[]})])"
proof -
  let ?arrow = "select_arrow (strip raw)"
  have ne: "?arrow \<noteq> []" by (rule select_arrow_nonempty)
  from assms have "\<not> py_in ?arrow (butlast (lft @ ?arrow))" by simp
  from py_split_acc_at_end [OF ne this, of "[]"]
  have "py_split ?arrow (lft @ ?arrow) = [lft, []]"
    by (simp add: py_split_def)
  then have sp: "py_split ?arrow (strip raw) = [lft, []]"
    using assms(1) by simp
  have "py_in ?arrow (lft @ ?arrow @ [])" by (rule py_in_append)
  then have "py_in ?arrow (strip raw)" using assms(1) by simp
  from parse_fds_line_two_parts [OF sp this] show ?thesis
    by (simp only: attr_set_empty)
qed

lemma parse_fds_line_keeps:
  "parse_fds_line raw fds = Inr fds' \<Longrightarrow> set fds \<subseteq> set fds'"
  by (auto simp: parse_fds_line_def Let_def split: if_splits list.splits)

subsection \<open>All lines\<close>

lemma parse_fds_lines_fail:
  assumes "l \<in> set ls" and "\<And>fds. parse_fds_line l fds = Inl ValueError"
  shows "parse_fds_lines ls fds0 = Inl ValueError"
  using assms(1)
proof (induction ls arbitrary: fds0)
  case Nil
  then show ?case by simp
next
  case (Cons x ls)
  show ?case
  proof (cases "parse_fds_line x fds0")
    case (Inl e)
    then show ?thesis by (cases e) simp
  next
    case (Inr fds')
    with assms(2) [of fds0] have "l \<noteq> x" by auto
    with Cons.prems have "l \<in> set ls" by simp
    from Cons.IH [OF this, of fds'] Inr show ?thesis by simp
  qed
qed

lemma parse_fds_lines_keeps:
  "parse_fds_lines ls fds0 = Inr fds \<Longrightarrow> set fds0 \<subseteq> set fds"
proof (induction ls arbitrary: fds0)
  case Nil
  then show ?case by simp
next
  case (Cons x ls)
  from Cons.prems obtain fds' where x: "parse_fds_line x fds0 = Inr fds'"
    and rest: "parse_fds_lines ls fds' = Inr fds"
    by (auto split: sum.splits)
  from parse_fds_line_keeps [OF x] Cons.IH [OF rest] show ?case by blast
qed

lemma parse_fds_lines_member:
  assumes "l \<in> set ls" and "\<And>f. parse_fds_line l f = Inr (f @ [fd])"
  shows "parse_fds_lines ls fds0 = Inr fds \<Longrightarrow> fd \<in> set fds"
  using assms(1)
proof (induction ls arbitrary: fds0)
  case Nil
  then show ?case by simp
next
  case (Cons x ls)
  from Cons.prems(1) obtain fds' where x: "parse_fds_line x fds0 = Inr fds'"
    and rest: "parse_fds_lines ls fds' = Inr fds"
    by (auto split: sum.splits)
  show ?case
  proof (cases "l = x")
    case True
    with x assms(2) [of fds0] have "fd \<in> set fds'" by auto
    with parse_fds_lines_keeps [OF rest] show ?thesis by blast
  next
    case False
    with Cons.prems(2) have "l \<in> set ls" by simp
    from Cons.IH [OF rest this] show ?thesis .
  qed
qed


section \<open>Properties of the parser\<close>

text \<open>
  C9, as the specification states it: every line that contains the separator \<open>->\<close> or
  the Unicode arrow two or more times makes \<^verbatim>\<open>parse_fds\<close> fail. The code splits a line at
  one kind of arrow only, the Unicode arrow whenever the line contains it; the line
  \<open>A -> B -> C \<rightarrow> D\<close> contains \<open>->\<close> twice, and three separators in all, and is parsed
  into one dependency.
\<close>

theorem parse_fds_repeated_separator_counterexample:
  "parse_fds (ascii ''A '' @ arrow_ascii @ ascii '' B '' @ arrow_ascii @ ascii '' C ''
              @ arrow_unicode @ ascii '' D'')
     = Inr [({ascii ''A -> B -> C''}, {ascii ''D''})]"
  by code_simp

text \<open>
  C9, amended: for every input line in which the separator selected for that line (the
  Unicode arrow when the line contains one, \<open>->\<close> otherwise) occurs two or more times,
  \<^verbatim>\<open>parse_fds\<close> fails with the exception of the tuple unpacking, whatever the other lines
  are; the line is neither skipped nor parsed. A line that contains neither separator is
  skipped: it leaves the list of dependencies as it is.
\<close>

theorem parse_fds_repeated_separator:
  "(l \<in> set (fd_lines fd_str)
      \<and> strip l = a @ select_arrow (strip l) @ b @ select_arrow (strip l) @ c
      \<longrightarrow> parse_fds fd_str = Inl ValueError)
   \<and> (\<not> py_in arrow_ascii (strip l) \<and> \<not> py_in arrow_unicode (strip l)
      \<longrightarrow> parse_fds_line l fds = Inr fds)"
proof (intro conjI impI)
  assume h: "l \<in> set (fd_lines fd_str)
      \<and> strip l = a @ select_arrow (strip l) @ b @ select_arrow (strip l) @ c"
  then have mem: "l \<in> set (fd_lines fd_str)"
    and dec: "strip l = a @ select_arrow (strip l) @ b @ select_arrow (strip l) @ c"
    by simp_all
  show "parse_fds fd_str = Inl ValueError"
    unfolding parse_fds_def
    by (rule parse_fds_lines_fail [OF mem]) (rule parse_fds_line_repeated [OF dec])
next
  assume "\<not> py_in arrow_ascii (strip l) \<and> \<not> py_in arrow_unicode (strip l)"
  then show "parse_fds_line l fds = Inr fds"
    by (simp add: parse_fds_line_no_separator)
qed

theorem parse_fds_repeated_separator_witness:
  "fd_lines (ascii ''X -> Y'' @ newline @ ascii '' A -> B -> C '')
     = [ascii ''X -> Y'', ascii '' A -> B -> C'']
   \<and> strip (ascii '' A -> B -> C'')
     = ascii ''A '' @ select_arrow (strip (ascii '' A -> B -> C'')) @ ascii '' B ''
       @ select_arrow (strip (ascii '' A -> B -> C'')) @ ascii '' C''
   \<and> parse_fds (ascii ''X -> Y'' @ newline @ ascii '' A -> B -> C '') = Inl ValueError
   \<and> \<not> py_in arrow_ascii (strip (ascii ''junk''))
   \<and> \<not> py_in arrow_unicode (strip (ascii ''junk''))
   \<and> parse_fds_line (ascii ''junk'') [({ascii ''X''}, {ascii ''Y''})]
     = Inr [({ascii ''X''}, {ascii ''Y''})]"
proof -
  let ?s = "ascii ''X -> Y'' @ newline @ ascii '' A -> B -> C ''"
  let ?l = "ascii '' A -> B -> C''"
  have ls: "fd_lines ?s = [ascii ''X -> Y'', ?l]" by code_simp
  then have mem: "?l \<in> set (fd_lines ?s)" by simp
  have dec: "strip ?l = ascii ''A '' @ select_arrow (strip ?l) @ ascii '' B ''
      @ select_arrow (strip ?l) @ ascii '' C''"
    by code_simp
  have fail: "parse_fds ?s = Inl ValueError"
    by (rule mp [OF conjunct1 [OF parse_fds_repeated_separator] conjI [OF mem dec]])
  have n1: "\<not> py_in arrow_ascii (strip (ascii ''junk''))" by code_simp
  have n2: "\<not> py_in arrow_unicode (strip (ascii ''junk''))" by code_simp
  have skip: "parse_fds_line (ascii ''junk'') [({ascii ''X''}, {ascii ''Y''})]
      = Inr [({ascii ''X''}, {ascii ''Y''})]"
    by (rule mp [OF conjunct2 [OF parse_fds_repeated_separator] conjI [OF n1 n2]])
  show ?thesis
    by (intro conjI ls dec fail n1 n2 skip)
qed

text \<open>
  C10. A line whose selected separator occurs exactly once, with nothing before it or
  nothing after it, is neither skipped nor rejected: \<^verbatim>\<open>parse_fds\<close> appends a dependency
  whose empty side is the singleton set of the empty string, and when the whole text
  parses, that dependency is in the returned list.
\<close>

theorem parse_fds_empty_side:
  "(strip l = select_arrow (strip l) @ r \<and> \<not> py_in (select_arrow (strip l)) r
      \<longrightarrow> parse_fds_line l fds = Inr (fds @ [({[]}, attr_set r)])
          \<and> (l \<in> set (fd_lines fd_str) \<and> parse_fds fd_str = Inr result
               \<longrightarrow> ({[]}, attr_set r) \<in> set result))
   \<and> (strip l = lft @ select_arrow (strip l)
        \<and> \<not> py_in (select_arrow (strip l)) (butlast (strip l))
      \<longrightarrow> parse_fds_line l fds = Inr (fds @ [(attr_set lft, {[]})])
          \<and> (l \<in> set (fd_lines fd_str) \<and> parse_fds fd_str = Inr result
               \<longrightarrow> (attr_set lft, {[]}) \<in> set result))"
proof (intro conjI impI)
  assume "strip l = select_arrow (strip l) @ r \<and> \<not> py_in (select_arrow (strip l)) r"
  then have a: "strip l = select_arrow (strip l) @ r"
    and b: "\<not> py_in (select_arrow (strip l)) r" by simp_all
  show "parse_fds_line l fds = Inr (fds @ [({[]}, attr_set r)])"
    using a b by (rule parse_fds_line_empty_left)
  assume "l \<in> set (fd_lines fd_str) \<and> parse_fds fd_str = Inr result"
  then have mem: "l \<in> set (fd_lines fd_str)"
    and ok: "parse_fds_lines (fd_lines fd_str) [] = Inr result"
    by (simp_all add: parse_fds_def)
  show "({[]}, attr_set r) \<in> set result"
    by (rule parse_fds_lines_member [OF mem _ ok]) (rule parse_fds_line_empty_left [OF a b])
next
  assume "strip l = lft @ select_arrow (strip l)
      \<and> \<not> py_in (select_arrow (strip l)) (butlast (strip l))"
  then have a: "strip l = lft @ select_arrow (strip l)"
    and b: "\<not> py_in (select_arrow (strip l)) (butlast (strip l))" by simp_all
  show "parse_fds_line l fds = Inr (fds @ [(attr_set lft, {[]})])"
    using a b by (rule parse_fds_line_empty_right)
  assume "l \<in> set (fd_lines fd_str) \<and> parse_fds fd_str = Inr result"
  then have mem: "l \<in> set (fd_lines fd_str)"
    and ok: "parse_fds_lines (fd_lines fd_str) [] = Inr result"
    by (simp_all add: parse_fds_def)
  show "(attr_set lft, {[]}) \<in> set result"
    by (rule parse_fds_lines_member [OF mem _ ok]) (rule parse_fds_line_empty_right [OF a b])
qed

theorem parse_fds_empty_side_witness:
  "strip (ascii ''-> B'') = select_arrow (strip (ascii ''-> B'')) @ ascii '' B''
   \<and> \<not> py_in (select_arrow (strip (ascii ''-> B''))) (ascii '' B'')
   \<and> parse_fds_line (ascii ''-> B'') [] = Inr [({[]}, {ascii ''B''})]
   \<and> fd_lines (ascii ''-> B'') = [ascii ''-> B'']
   \<and> parse_fds (ascii ''-> B'') = Inr [({[]}, {ascii ''B''})]
   \<and> ({[]}, attr_set (ascii '' B'')) \<in> set [({[] :: pystr}, {ascii ''B''})]
   \<and> strip (ascii ''A ->'') = ascii ''A '' @ select_arrow (strip (ascii ''A ->''))
   \<and> \<not> py_in (select_arrow (strip (ascii ''A ->''))) (butlast (strip (ascii ''A ->'')))
   \<and> parse_fds_line (ascii ''A ->'') [] = Inr [({ascii ''A''}, {[]})]
   \<and> fd_lines (ascii ''A ->'') = [ascii ''A ->'']
   \<and> parse_fds (ascii ''A ->'') = Inr [({ascii ''A''}, {[]})]
   \<and> (attr_set (ascii ''A ''), {[]}) \<in> set [({ascii ''A''}, {[] :: pystr})]"
proof -
  have a1: "strip (ascii ''-> B'') = select_arrow (strip (ascii ''-> B'')) @ ascii '' B''"
    by code_simp
  have b1: "\<not> py_in (select_arrow (strip (ascii ''-> B''))) (ascii '' B'')"
    by code_simp
  have s1: "attr_set (ascii '' B'') = {ascii ''B''}" by code_simp
  note t1 = mp [OF conjunct1 [OF parse_fds_empty_side
        [where l = "ascii ''-> B''" and r = "ascii '' B''" and fds = "[]"
          and fd_str = "ascii ''-> B''" and result = "[({[]}, {ascii ''B''})]"]]
      conjI [OF a1 b1]]
  from conjunct1 [OF t1] have l1: "parse_fds_line (ascii ''-> B'') [] = Inr [({[]}, {ascii ''B''})]"
    by (simp only: s1 append_Nil)
  have p1: "parse_fds (ascii ''-> B'') = Inr [({[]}, {ascii ''B''})]" by code_simp
  have f1: "fd_lines (ascii ''-> B'') = [ascii ''-> B'']" by code_simp
  then have i1: "ascii ''-> B'' \<in> set (fd_lines (ascii ''-> B''))" by simp
  have m1: "({[]}, attr_set (ascii '' B'')) \<in> set [({[] :: pystr}, {ascii ''B''})]"
    by (rule mp [OF conjunct2 [OF t1] conjI [OF i1 p1]])
  have a2: "strip (ascii ''A ->'') = ascii ''A '' @ select_arrow (strip (ascii ''A ->''))"
    by code_simp
  have b2: "\<not> py_in (select_arrow (strip (ascii ''A ->''))) (butlast (strip (ascii ''A ->'')))"
    by code_simp
  have s2: "attr_set (ascii ''A '') = {ascii ''A''}" by code_simp
  note t2 = mp [OF conjunct2 [OF parse_fds_empty_side
        [where l = "ascii ''A ->''" and lft = "ascii ''A ''" and fds = "[]"
          and fd_str = "ascii ''A ->''" and result = "[({ascii ''A''}, {[]})]"]]
      conjI [OF a2 b2]]
  from conjunct1 [OF t2] have l2: "parse_fds_line (ascii ''A ->'') [] = Inr [({ascii ''A''}, {[]})]"
    by (simp only: s2 append_Nil)
  have p2: "parse_fds (ascii ''A ->'') = Inr [({ascii ''A''}, {[]})]" by code_simp
  have f2: "fd_lines (ascii ''A ->'') = [ascii ''A ->'']" by code_simp
  then have i2: "ascii ''A ->'' \<in> set (fd_lines (ascii ''A ->''))" by simp
  have m2: "(attr_set (ascii ''A ''), {[]}) \<in> set [({ascii ''A''}, {[] :: pystr})]"
    by (rule mp [OF conjunct2 [OF t2] conjI [OF i2 p2]])
  show ?thesis
    by (intro conjI a1 b1 l1 f1 p1 m1 a2 b2 l2 f2 p2 m2)
qed


end
